theory Spec2Isabelle
  imports Complex_Main "HOL-Library.List_Lexorder" "HOL-Library.Char_ord"
begin

section \<open>Data model of the route planner\<close>

text \<open>
  The planner lives in \<^verbatim>\<open>src/algorithm/pathfinder.ts\<close>. Times are JavaScript numbers; they
  are modelled as exact rationals. Nodes of the location graph are numbers.

  The location graph (\<^verbatim>\<open>nodes\<close>), the distance oracle (\<^verbatim>\<open>gps\<close>) and the node
  a market sits on are not part of the sources at hand. They are collected in the record
  \<open>Env\<close> and every definition below takes them as a parameter: the oracle \<open>gps\<close>
  (called with a possibly absent start node, as the planner does for its first stop), the
  catalogue \<open>bountyData\<close>, the bounty board and the two portals.
\<close>

type_synonym node = nat

datatype BountyStatus = NOT_STARTED | IN_PROGRESS | COMPLETED

record Market =
  m_name :: string
  m_node :: node

record Portal =
  p_name :: string
  p_node :: node
  teleportTime :: rat

record Bounty =
  kp :: rat
  seller :: Market
  buyer :: Market

record GpsResult =
  g_distance :: rat
  g_path :: "node list"

record Env =
  gps :: "node option \<Rightarrow> node \<Rightarrow> GpsResult"
  bountyData :: "string \<Rightarrow> Bounty"
  bountyBoard :: Market
  CRENOPOLIS_MARKET :: Portal
  CRENOPOLIS_OUTSKIRTS :: Portal

datatype Action =
    Teleport (a_location: string) (a_distance: rat)
  | Buy (a_item: string) (a_location: string) (a_distance: rat)
  | Sell (a_item: string) (a_location: string) (a_distance: rat)
  | Return (a_location: string) (a_distance: rat)

record SearchState =
  s_distance :: rat
  previousNode :: "node option"
  currentNode :: node
  bountyStates :: "BountyStatus list"
  actions :: "Action list"

record Route =
  r_actions :: "Action list"
  r_distance :: rat

text \<open>The working variables of one loop iteration of \<^verbatim>\<open>findBestRoute\<close>.\<close>

record Visit =
  v_states :: "BountyStatus list"
  v_actions :: "Action list"
  v_distance :: rat
  numItemsBought :: nat
  numItemsSold :: nat

text \<open>
  Instance fields of the \<^verbatim>\<open>Pathfinder\<close> class. Nothing in the repository assigns them, so
  they are constants. \<^verbatim>\<open>includeWalkingSteps\<close> is \<^verbatim>\<open>false\<close>; the branch of
  \<^verbatim>\<open>#addTravelSteps\<close> it guards (a \<^verbatim>\<open>walk\<close> step, which carries no time) is therefore
  never taken and the \<open>Action\<close> type has no such variant, as the \<^verbatim>\<open>Step\<close> type of the
  consumer has none.
\<close>

definition includeTeleportSteps :: bool where
  "includeTeleportSteps = True"

definition inventorySpace :: int where
  "inventorySpace = 24"

definition timeToBuy :: rat where
  "timeToBuy = 3"

definition timeToSell :: rat where
  "timeToSell = 4"

definition MAX_SAFE_INTEGER :: rat where
  "MAX_SAFE_INTEGER = 9007199254740991"

section \<open>Helpers of the planner\<close>

text \<open>\<^verbatim>\<open>#canPurchaseMoreItems\<close>: every bounty in progress takes 6 of the inventory space.\<close>

definition canPurchaseMoreItems :: "BountyStatus list \<Rightarrow> bool" where
  "canPurchaseMoreItems sts =
     (6 \<le> fold (\<lambda>state availableSpace.
                  if state = IN_PROGRESS then availableSpace - 6 else availableSpace)
              sts inventorySpace)"

text \<open>\<^verbatim>\<open>#deliveriesCompleted\<close>.\<close>

definition deliveriesCompleted :: "BountyStatus list \<Rightarrow> bool" where
  "deliveriesCompleted sts = list_all (\<lambda>state. state = COMPLETED) sts"

text \<open>
  \<^verbatim>\<open>#addTravelSteps\<close>. The time of the last action is read once, before the loop over the
  inner nodes of the path (indices \<open>1\<close> to \<open>length path - 2\<close>); every teleport step of the
  leg is stamped with that time plus its own teleport time.
\<close>

definition teleportStep :: "Env \<Rightarrow> rat \<Rightarrow> node \<Rightarrow> Action list \<Rightarrow> Action list" where
  "teleportStep env currentDistance p acts =
     (if includeTeleportSteps \<and> p = p_node (CRENOPOLIS_MARKET env) then
        acts @ [Teleport (p_name (CRENOPOLIS_MARKET env))
                  (currentDistance + teleportTime (CRENOPOLIS_MARKET env))]
      else if includeTeleportSteps \<and> p = p_node (CRENOPOLIS_OUTSKIRTS env) then
        acts @ [Teleport (p_name (CRENOPOLIS_OUTSKIRTS env))
                  (currentDistance + teleportTime (CRENOPOLIS_OUTSKIRTS env))]
      else acts)"

definition addTravelSteps :: "Env \<Rightarrow> Action list \<Rightarrow> node option \<Rightarrow> node \<Rightarrow> Action list" where
  "addTravelSteps env acts startNode endNode =
     (let path = g_path (gps env startNode endNode) in
      if length path < 2 then acts
      else
        let currentDistance = (if acts \<noteq> [] then a_distance (last acts) else 0) in
        fold (\<lambda>i. teleportStep env currentDistance (path ! i)) [1..<length path - 1] acts)"

section \<open>One stop: sell, then buy\<close>

text \<open>
  The body of the sell loop for index \<open>i\<close>. A status read beyond the end of the status
  array is \<^verbatim>\<open>undefined\<close> in the source and equal to no status.
\<close>

definition sellAt :: "Env \<Rightarrow> string list \<Rightarrow> node option \<Rightarrow> node \<Rightarrow> nat \<Rightarrow> Visit \<Rightarrow> Visit" where
  "sellAt env bounties prev cur i v =
     (let bounty = bounties ! i in
      if cur \<noteq> m_node (buyer (bountyData env bounty)) then v
      else if \<not> (i < length (v_states v) \<and> v_states v ! i = IN_PROGRESS) then v
      else
        let acts = (if numItemsBought v + numItemsSold v = 0
                    then addTravelSteps env (v_actions v) prev cur
                    else v_actions v);
            distance = v_distance v + timeToSell
        in \<lparr>v_states = (v_states v)[i := COMPLETED],
            v_actions = acts @ [Sell bounty (m_name (buyer (bountyData env bounty))) distance],
            v_distance = distance,
            numItemsBought = numItemsBought v,
            numItemsSold = numItemsSold v + 1\<rparr>)"

definition sellLoop :: "Env \<Rightarrow> string list \<Rightarrow> node option \<Rightarrow> node \<Rightarrow> Visit \<Rightarrow> Visit" where
  "sellLoop env bounties prev cur v =
     fold (sellAt env bounties prev cur) [0..<length bounties] v"

text \<open>The body of the buy loop for index \<open>i\<close>, after the capacity check.\<close>

definition buyAt :: "Env \<Rightarrow> string list \<Rightarrow> node option \<Rightarrow> node \<Rightarrow> nat \<Rightarrow> Visit \<Rightarrow> Visit" where
  "buyAt env bounties prev cur i v =
     (let bounty = bounties ! i in
      if cur \<noteq> m_node (seller (bountyData env bounty)) then v
      else if \<not> (i < length (v_states v) \<and> v_states v ! i = NOT_STARTED) then v
      else
        let acts = (if numItemsBought v + numItemsSold v = 0
                    then addTravelSteps env (v_actions v) prev cur
                    else v_actions v);
            distance = (if numItemsBought v = 0 then v_distance v + timeToBuy
                        else v_distance v)
        in \<lparr>v_states = (v_states v)[i := IN_PROGRESS],
            v_actions = acts @ [Buy bounty (m_name (seller (bountyData env bounty))) distance],
            v_distance = distance,
            numItemsBought = numItemsBought v + 1,
            numItemsSold = numItemsSold v\<rparr>)"

text \<open>The buy loop stops (\<^verbatim>\<open>break\<close>) as soon as the inventory is full.\<close>

fun buyLoop :: "Env \<Rightarrow> string list \<Rightarrow> node option \<Rightarrow> node \<Rightarrow> nat list \<Rightarrow> Visit \<Rightarrow> Visit" where
  "buyLoop env bounties prev cur [] v = v"
| "buyLoop env bounties prev cur (i # is) v =
     (if \<not> canPurchaseMoreItems (v_states v) then v
      else buyLoop env bounties prev cur is (buyAt env bounties prev cur i v))"

definition visit :: "Env \<Rightarrow> string list \<Rightarrow> SearchState \<Rightarrow> Visit" where
  "visit env bounties s =
     buyLoop env bounties (previousNode s) (currentNode s) [0..<length bounties]
       (sellLoop env bounties (previousNode s) (currentNode s)
          \<lparr>v_states = bountyStates s, v_actions = actions s, v_distance = s_distance s,
           numItemsBought = 0, numItemsSold = 0\<rparr>)"

section \<open>The priority queue and the successors of a stop\<close>

text \<open>
  The queue (a heap of the library \<^verbatim>\<open>@datastructures-js/priority-queue\<close>, compared by
  \<^verbatim>\<open>distance\<close>) is a list kept in ascending order of distance; dequeuing takes its head.
  Among states of equal distance the one enqueued first leaves first.
\<close>

fun enqueue :: "SearchState \<Rightarrow> SearchState list \<Rightarrow> SearchState list" where
  "enqueue s [] = [s]"
| "enqueue s (x # xs) =
     (if s_distance s < s_distance x then s # x # xs else x # enqueue s xs)"

definition travelTo :: "Env \<Rightarrow> rat \<Rightarrow> node \<Rightarrow> Visit \<Rightarrow> node \<Rightarrow> SearchState list \<Rightarrow> SearchState list" where
  "travelTo env bestDistance cur v nextNode pq =
     (let newDistance = v_distance v + g_distance (gps env (Some cur) nextNode) in
      if newDistance < bestDistance then
        enqueue \<lparr>s_distance = newDistance, previousNode = Some cur, currentNode = nextNode,
                 bountyStates = v_states v, actions = v_actions v\<rparr> pq
      else pq)"

definition enqueuePurchases :: "Env \<Rightarrow> string list \<Rightarrow> rat \<Rightarrow> node \<Rightarrow> Visit \<Rightarrow> SearchState list \<Rightarrow> SearchState list" where
  "enqueuePurchases env bounties bestDistance cur v pq =
     (if canPurchaseMoreItems (v_states v) then
        fold (\<lambda>i q. if i < length (v_states v) \<and> v_states v ! i = NOT_STARTED
                     then travelTo env bestDistance cur v
                            (m_node (seller (bountyData env (bounties ! i)))) q
                     else q)
             [0..<length bounties] pq
      else pq)"

definition enqueueSales :: "Env \<Rightarrow> string list \<Rightarrow> rat \<Rightarrow> node \<Rightarrow> Visit \<Rightarrow> SearchState list \<Rightarrow> SearchState list" where
  "enqueueSales env bounties bestDistance cur v pq =
     fold (\<lambda>i q. if i < length (v_states v) \<and> v_states v ! i = IN_PROGRESS
                  then travelTo env bestDistance cur v
                         (m_node (buyer (bountyData env (bounties ! i)))) q
                  else q)
          [0..<length bounties] pq"

definition nextStates :: "Env \<Rightarrow> string list \<Rightarrow> rat \<Rightarrow> node \<Rightarrow> Visit \<Rightarrow> SearchState list \<Rightarrow> SearchState list" where
  "nextStates env bounties bestDistance cur v pq =
     enqueueSales env bounties bestDistance cur v
       (enqueuePurchases env bounties bestDistance cur v pq)"

section \<open>The search loop\<close>

datatype Outcome =
    Done "Route option"
  | Continue "SearchState list" "((node \<times> BountyStatus list) \<times> rat) list"

text \<open>
  One iteration of the \<^verbatim>\<open>while\<close> loop. The \<^verbatim>\<open>visited\<close> map is an association list whose
  newest entry comes first. \<^verbatim>\<open>bestDistance\<close> is assigned only immediately before a
  \<^verbatim>\<open>return\<close>, so during the loop it is the threshold.
\<close>

definition iteration :: "Env \<Rightarrow> string list \<Rightarrow> rat \<Rightarrow> bool \<Rightarrow> SearchState list \<Rightarrow>
    ((node \<times> BountyStatus list) \<times> rat) list \<Rightarrow> Outcome" where
  "iteration env bounties bestDistance roundTrip pq visited =
     (case pq of
        [] \<Rightarrow> Done None
      | s # rest \<Rightarrow>
          if bestDistance \<le> s_distance s then Continue rest visited
          else if (case map_of visited (currentNode s, bountyStates s) of
                     Some d \<Rightarrow> d \<le> s_distance s
                   | None \<Rightarrow> False)
          then Continue rest visited
          else
            let visited' = ((currentNode s, bountyStates s), s_distance s) # visited;
                v = visit env bounties s;
                board = m_node (bountyBoard env)
            in
            if bestDistance \<le> v_distance v then Continue rest visited'
            else if deliveriesCompleted (v_states v) then
              (if roundTrip \<and> currentNode s \<noteq> board then
                 let distance = v_distance v + g_distance (gps env (Some (currentNode s)) board);
                     acts = addTravelSteps env (v_actions v) (Some (currentNode s)) board
                            @ [Return (m_name (bountyBoard env)) distance]
                 in if distance < bestDistance
                    then Done (Some \<lparr>r_actions = acts, r_distance = distance\<rparr>)
                    else Continue
                           (nextStates env bounties bestDistance (currentNode s)
                              (v\<lparr>v_actions := acts, v_distance := distance\<rparr>) rest)
                           visited'
               else
                 if v_distance v < bestDistance
                 then Done (Some \<lparr>r_actions = v_actions v, r_distance = v_distance v\<rparr>)
                 else Continue (nextStates env bounties bestDistance (currentNode s) v rest)
                        visited')
            else Continue (nextStates env bounties bestDistance (currentNode s) v rest)
                   visited')"

section \<open>Termination of the search\<close>

text \<open>
  Every status only moves forward (not started, in progress, completed), and every state
  put on the queue makes at least one status move when it is visited. The sum of the
  ranks of the statuses after the visit therefore bounds the depth of the search, and a
  weight exponential in what remains decreases with every iteration of the loop.
\<close>

fun rank :: "BountyStatus \<Rightarrow> nat" where
  "rank NOT_STARTED = 0" | "rank IN_PROGRESS = 1" | "rank COMPLETED = 2"

definition progress :: "BountyStatus list \<Rightarrow> nat" where
  "progress sts = sum_list (map rank sts)"

lemma progress_le: "progress sts \<le> 2 * length sts"
proof (induction sts)
  case Nil show ?case by (simp add: progress_def)
next
  case (Cons a sts)
  have "rank a \<le> 2" by (cases a) simp_all
  with Cons show ?case by (simp add: progress_def)
qed

lemma progress_update:
  assumes "i < length sts"
  shows "progress (sts[i := x]) + rank (sts ! i) = progress sts + rank x"
  using assms
proof (induction sts arbitrary: i)
  case Nil then show ?case by simp
next
  case (Cons a sts)
  then show ?case by (cases i) (auto simp: progress_def)
qed

lemma canPurchase_count:
  "canPurchaseMoreItems sts \<longleftrightarrow> count_list sts IN_PROGRESS \<le> 3"
proof -
  have "fold (\<lambda>state availableSpace. if state = IN_PROGRESS then availableSpace - 6 else availableSpace) sts a
        = a - 6 * int (count_list sts IN_PROGRESS)" for a :: int
    by (induction sts arbitrary: a) auto
  then show ?thesis by (simp add: canPurchaseMoreItems_def inventorySpace_def)
qed

lemma count_list_update:
  assumes "i < length sts"
  shows "count_list (sts[i := x]) y + (if sts ! i = y then 1 else 0)
         = count_list sts y + (if x = y then 1 else 0)"
  using assms
proof (induction sts arbitrary: i)
  case Nil then show ?case by simp
next
  case (Cons a sts)
  then show ?case by (cases i) (force split: if_splits)+
qed

lemma sellAt_length [simp]: "length (v_states (sellAt env bs p c i v)) = length (v_states v)"
  by (simp add: sellAt_def Let_def)

lemma buyAt_length [simp]: "length (v_states (buyAt env bs p c i v)) = length (v_states v)"
  by (simp add: buyAt_def Let_def)

lemma sellAt_progress: "progress (v_states v) \<le> progress (v_states (sellAt env bs p c i v))"
  using progress_update[of i "v_states v" COMPLETED]
  by (auto simp: sellAt_def Let_def)

lemma buyAt_progress: "progress (v_states v) \<le> progress (v_states (buyAt env bs p c i v))"
  using progress_update[of i "v_states v" IN_PROGRESS]
  by (auto simp: buyAt_def Let_def)

lemma sellAt_count:
  "count_list (v_states (sellAt env bs p c i v)) IN_PROGRESS \<le> count_list (v_states v) IN_PROGRESS"
  using count_list_update[of i "v_states v" COMPLETED IN_PROGRESS]
  by (auto simp: sellAt_def Let_def)

lemma sellAt_keeps_NS:
  "j < length (v_states v) \<Longrightarrow> v_states v ! j = NOT_STARTED \<Longrightarrow>
   v_states (sellAt env bs p c i v) ! j = NOT_STARTED"
  by (auto simp: sellAt_def Let_def nth_list_update)

lemma sellAt_other:
  "j \<noteq> i \<Longrightarrow> v_states (sellAt env bs p c i v) ! j = v_states v ! j"
  by (auto simp: sellAt_def Let_def)

lemma sellAt_hit:
  "i < length (v_states v) \<Longrightarrow> v_states v ! i = IN_PROGRESS \<Longrightarrow>
   c = m_node (buyer (bountyData env (bs ! i))) \<Longrightarrow>
   progress (v_states (sellAt env bs p c i v)) = progress (v_states v) + 1"
  using progress_update[of i "v_states v" COMPLETED]
  by (auto simp: sellAt_def Let_def)

lemma buyAt_hit:
  "i < length (v_states v) \<Longrightarrow> v_states v ! i = NOT_STARTED \<Longrightarrow>
   c = m_node (seller (bountyData env (bs ! i))) \<Longrightarrow>
   progress (v_states (buyAt env bs p c i v)) = progress (v_states v) + 1"
  using progress_update[of i "v_states v" IN_PROGRESS]
  by (auto simp: buyAt_def Let_def)

lemma buyAt_other:
  "j \<noteq> i \<Longrightarrow> v_states (buyAt env bs p c i v) ! j = v_states v ! j"
  by (auto simp: buyAt_def Let_def)

lemma sellLoop_fold_length [simp]:
  "length (v_states (fold (sellAt env bs p c) is v)) = length (v_states v)"
  by (induction "is" arbitrary: v) simp_all

lemma sellLoop_fold_progress:
  "progress (v_states v) \<le> progress (v_states (fold (sellAt env bs p c) is v))"
proof (induction "is" arbitrary: v)
  case Nil show ?case by simp
next
  case (Cons i "is")
  show ?case using sellAt_progress[of v env bs p c i] Cons[of "sellAt env bs p c i v"] by simp
qed

lemma sellLoop_fold_count:
  "count_list (v_states (fold (sellAt env bs p c) is v)) IN_PROGRESS \<le> count_list (v_states v) IN_PROGRESS"
proof (induction "is" arbitrary: v)
  case Nil show ?case by simp
next
  case (Cons i "is")
  show ?case using sellAt_count[of env bs p c i v] Cons[of "sellAt env bs p c i v"] by simp
qed

lemma sellLoop_fold_keeps_NS:
  "j < length (v_states v) \<Longrightarrow> v_states v ! j = NOT_STARTED \<Longrightarrow>
   v_states (fold (sellAt env bs p c) is v) ! j = NOT_STARTED"
proof (induction "is" arbitrary: v)
  case Nil then show ?case by simp
next
  case (Cons i "is")
  show ?case using Cons.prems Cons.IH[of "sellAt env bs p c i v"] sellAt_keeps_NS[of j v env bs p c i] by simp
qed

lemma sellLoop_fold_hit:
  "i \<in> set is \<Longrightarrow> i < length (v_states v) \<Longrightarrow> v_states v ! i = IN_PROGRESS \<Longrightarrow>
   c = m_node (buyer (bountyData env (bs ! i))) \<Longrightarrow>
   progress (v_states v) < progress (v_states (fold (sellAt env bs p c) is v))"
proof (induction "is" arbitrary: v)
  case Nil then show ?case by simp
next
  case (Cons h "is")
  show ?case
  proof (cases "h = i")
    case True
    have "progress (v_states (sellAt env bs p c i v)) = progress (v_states v) + 1"
      using Cons.prems by (intro sellAt_hit) auto
    moreover have "progress (v_states (sellAt env bs p c i v))
        \<le> progress (v_states (fold (sellAt env bs p c) is (sellAt env bs p c i v)))"
      by (rule sellLoop_fold_progress)
    ultimately show ?thesis using True by simp
  next
    case False
    then have "i \<in> set is" using Cons.prems by simp
    moreover have "v_states (sellAt env bs p c h v) ! i = IN_PROGRESS"
      using False Cons.prems by (simp add: sellAt_other)
    ultimately have "progress (v_states (sellAt env bs p c h v))
        < progress (v_states (fold (sellAt env bs p c) is (sellAt env bs p c h v)))"
      using Cons.prems by (intro Cons.IH) auto
    then show ?thesis using sellAt_progress[of v env bs p c h] by simp
  qed
qed

lemma buyLoop_length [simp]:
  "length (v_states (buyLoop env bs p c is v)) = length (v_states v)"
  by (induction "is" arbitrary: v) simp_all

lemma buyLoop_progress:
  "progress (v_states v) \<le> progress (v_states (buyLoop env bs p c is v))"
proof (induction "is" arbitrary: v)
  case Nil show ?case by simp
next
  case (Cons i "is")
  show ?case using buyAt_progress[of v env bs p c i] Cons[of "buyAt env bs p c i v"] by simp
qed

lemma buyLoop_hit:
  "i \<in> set is \<Longrightarrow> i < length (v_states v) \<Longrightarrow> v_states v ! i = NOT_STARTED \<Longrightarrow>
   c = m_node (seller (bountyData env (bs ! i))) \<Longrightarrow> canPurchaseMoreItems (v_states v) \<Longrightarrow>
   progress (v_states v) < progress (v_states (buyLoop env bs p c is v))"
proof (induction "is" arbitrary: v)
  case Nil then show ?case by simp
next
  case (Cons h "is")
  let ?v' = "buyAt env bs p c h v"
  show ?case
  proof (cases "h = i")
    case True
    have "progress (v_states ?v') = progress (v_states v) + 1"
      using Cons.prems True by (intro buyAt_hit) auto
    moreover have "progress (v_states ?v') \<le> progress (v_states (buyLoop env bs p c is ?v'))"
      by (rule buyLoop_progress)
    ultimately show ?thesis using Cons.prems by simp
  next
    case False
    show ?thesis
    proof (cases "v_states ?v' = v_states v")
      case True
      have "progress (v_states ?v') < progress (v_states (buyLoop env bs p c is ?v'))"
        using Cons.prems False True by (intro Cons.IH) auto
      then show ?thesis using Cons.prems True by simp
    next
      case False
      then have "progress (v_states ?v') = progress (v_states v) + 1"
        using progress_update[of h "v_states v" IN_PROGRESS]
        by (auto simp: buyAt_def Let_def split: if_splits)
      moreover have "progress (v_states ?v') \<le> progress (v_states (buyLoop env bs p c is ?v'))"
        by (rule buyLoop_progress)
      ultimately show ?thesis using Cons.prems by simp
    qed
  qed
qed


definition remaining :: "Env \<Rightarrow> string list \<Rightarrow> SearchState \<Rightarrow> nat" where
  "remaining env bs s = 2 * length (bountyStates s) - progress (v_states (visit env bs s))"

definition weight :: "Env \<Rightarrow> string list \<Rightarrow> SearchState \<Rightarrow> nat" where
  "weight env bs s = (2 * length bs + 1) ^ (remaining env bs s + 1)"

definition pqWeight :: "Env \<Rightarrow> string list \<Rightarrow> SearchState list \<Rightarrow> nat" where
  "pqWeight env bs pq = sum_list (map (weight env bs) pq)"

lemma visit_length [simp]: "length (v_states (visit env bs s)) = length (bountyStates s)"
  by (simp add: visit_def sellLoop_def)

lemma visit_progress: "progress (bountyStates s) \<le> progress (v_states (visit env bs s))"
proof -
  let ?v0 = "\<lparr>v_states = bountyStates s, v_actions = actions s, v_distance = s_distance s,
           numItemsBought = 0, numItemsSold = 0\<rparr>"
  have "progress (v_states ?v0) \<le> progress (v_states (sellLoop env bs (previousNode s) (currentNode s) ?v0))"
    unfolding sellLoop_def by (rule sellLoop_fold_progress)
  also have "\<dots> \<le> progress (v_states (visit env bs s))"
    unfolding visit_def by (rule buyLoop_progress)
  finally show ?thesis by simp
qed

lemma visit_hit_sale:
  assumes "i < length bs" "i < length (bountyStates s)" "bountyStates s ! i = IN_PROGRESS"
    "currentNode s = m_node (buyer (bountyData env (bs ! i)))"
  shows "progress (bountyStates s) < progress (v_states (visit env bs s))"
proof -
  let ?v0 = "\<lparr>v_states = bountyStates s, v_actions = actions s, v_distance = s_distance s,
           numItemsBought = 0, numItemsSold = 0\<rparr>"
  have "progress (v_states ?v0) < progress (v_states (sellLoop env bs (previousNode s) (currentNode s) ?v0))"
    unfolding sellLoop_def using assms by (intro sellLoop_fold_hit[where i=i]) auto
  also have "\<dots> \<le> progress (v_states (visit env bs s))"
    unfolding visit_def by (rule buyLoop_progress)
  finally show ?thesis by simp
qed

lemma visit_hit_purchase:
  assumes "i < length bs" "i < length (bountyStates s)" "bountyStates s ! i = NOT_STARTED"
    "currentNode s = m_node (seller (bountyData env (bs ! i)))"
    "canPurchaseMoreItems (bountyStates s)"
  shows "progress (bountyStates s) < progress (v_states (visit env bs s))"
proof -
  let ?v0 = "\<lparr>v_states = bountyStates s, v_actions = actions s, v_distance = s_distance s,
           numItemsBought = 0, numItemsSold = 0\<rparr>"
  let ?v1 = "sellLoop env bs (previousNode s) (currentNode s) ?v0"
  have c: "canPurchaseMoreItems (v_states ?v1)"
    using assms(5) sellLoop_fold_count[of env bs "previousNode s" "currentNode s" "[0..<length bs]" ?v0]
    by (simp add: canPurchase_count sellLoop_def)
  have n: "v_states ?v1 ! i = NOT_STARTED"
    unfolding sellLoop_def using assms by (intro sellLoop_fold_keeps_NS) auto
  have "progress (v_states ?v0) \<le> progress (v_states ?v1)"
    unfolding sellLoop_def by (rule sellLoop_fold_progress)
  also have "\<dots> < progress (v_states (visit env bs s))"
    unfolding visit_def using assms c n
    by (intro buyLoop_hit[where i=i]) (auto simp: sellLoop_def)
  finally show ?thesis by simp
qed

lemma pqWeight_enqueue: "pqWeight env bs (enqueue s pq) = weight env bs s + pqWeight env bs pq"
  by (induction pq) (auto simp: pqWeight_def)

lemma remaining_successor:
  assumes "progress (bountyStates s') < progress (v_states (visit env bs s'))"
  shows "remaining env bs s' < 2 * length (bountyStates s') - progress (bountyStates s')"
proof -
  have "progress (v_states (visit env bs s')) \<le> 2 * length (bountyStates s')"
    using progress_le[of "v_states (visit env bs s')"] by simp
  then show ?thesis using assms by (simp add: remaining_def)
qed

lemma weight_successor:
  assumes "progress (bountyStates s') < progress (v_states (visit env bs s'))"
  shows "weight env bs s' \<le> (2 * length bs + 1) ^ (2 * length (bountyStates s') - progress (bountyStates s'))"
  unfolding weight_def using remaining_successor[OF assms]
  by (intro power_increasing) auto

lemma travelTo_weight:
  assumes "\<And>d. weight env bs \<lparr>s_distance = d, previousNode = Some cur, currentNode = nextNode,
                 bountyStates = v_states v, actions = v_actions v\<rparr> \<le> B"
  shows "pqWeight env bs (travelTo env best cur v nextNode pq) \<le> pqWeight env bs pq + B"
  using assms by (auto simp: travelTo_def Let_def pqWeight_enqueue add.commute)

lemma enqueuePurchases_fold_weight:
  assumes "canPurchaseMoreItems (v_states v)" "set is \<subseteq> {0..<length bs}"
  shows "pqWeight env bs
     (fold (\<lambda>i q. if i < length (v_states v) \<and> v_states v ! i = NOT_STARTED
                     then travelTo env best cur v (m_node (seller (bountyData env (bs ! i)))) q
                     else q) is pq)
     \<le> pqWeight env bs pq
        + length is * (2 * length bs + 1) ^ (2 * length (v_states v) - progress (v_states v))"
  using assms(2)
proof (induction "is" arbitrary: pq)
  case Nil show ?case by simp
next
  case (Cons i "is")
  let ?B = "(2 * length bs + 1) ^ (2 * length (v_states v) - progress (v_states v))"
  let ?f = "(\<lambda>i q. if i < length (v_states v) \<and> v_states v ! i = NOT_STARTED
                     then travelTo env best cur v (m_node (seller (bountyData env (bs ! i)))) q
                     else q)"
  have step: "pqWeight env bs (?f i pq) \<le> pqWeight env bs pq + ?B"
  proof (cases "i < length (v_states v) \<and> v_states v ! i = NOT_STARTED")
    case True
    have "weight env bs \<lparr>s_distance = d, previousNode = Some cur,
             currentNode = m_node (seller (bountyData env (bs ! i))),
             bountyStates = v_states v, actions = v_actions v\<rparr> \<le> ?B" for d
      using weight_successor[OF visit_hit_purchase[where i=i and env=env and bs=bs and
            s="\<lparr>s_distance = d, previousNode = Some cur,
             currentNode = m_node (seller (bountyData env (bs ! i))),
             bountyStates = v_states v, actions = v_actions v\<rparr>"]]
        True Cons.prems assms(1) by simp
    then show ?thesis using True travelTo_weight[of env bs cur _ v ?B best pq] by simp
  next
    case False then show ?thesis by auto
  qed
  have "pqWeight env bs (fold ?f is (?f i pq)) \<le> pqWeight env bs (?f i pq) + length is * ?B"
    using Cons.prems by (intro Cons.IH) auto
  then show ?case using step by simp
qed

lemma enqueueSales_fold_weight:
  assumes "set is \<subseteq> {0..<length bs}"
  shows "pqWeight env bs
     (fold (\<lambda>i q. if i < length (v_states v) \<and> v_states v ! i = IN_PROGRESS
                     then travelTo env best cur v (m_node (buyer (bountyData env (bs ! i)))) q
                     else q) is pq)
     \<le> pqWeight env bs pq
        + length is * (2 * length bs + 1) ^ (2 * length (v_states v) - progress (v_states v))"
  using assms
proof (induction "is" arbitrary: pq)
  case Nil show ?case by simp
next
  case (Cons i "is")
  let ?B = "(2 * length bs + 1) ^ (2 * length (v_states v) - progress (v_states v))"
  let ?f = "(\<lambda>i q. if i < length (v_states v) \<and> v_states v ! i = IN_PROGRESS
                     then travelTo env best cur v (m_node (buyer (bountyData env (bs ! i)))) q
                     else q)"
  have step: "pqWeight env bs (?f i pq) \<le> pqWeight env bs pq + ?B"
  proof (cases "i < length (v_states v) \<and> v_states v ! i = IN_PROGRESS")
    case True
    have "weight env bs \<lparr>s_distance = d, previousNode = Some cur,
             currentNode = m_node (buyer (bountyData env (bs ! i))),
             bountyStates = v_states v, actions = v_actions v\<rparr> \<le> ?B" for d
      using weight_successor[OF visit_hit_sale[where i=i and env=env and bs=bs and
            s="\<lparr>s_distance = d, previousNode = Some cur,
             currentNode = m_node (buyer (bountyData env (bs ! i))),
             bountyStates = v_states v, actions = v_actions v\<rparr>"]]
        True Cons.prems by simp
    then show ?thesis using True travelTo_weight[of env bs cur _ v ?B best pq] by simp
  next
    case False then show ?thesis by auto
  qed
  have "pqWeight env bs (fold ?f is (?f i pq)) \<le> pqWeight env bs (?f i pq) + length is * ?B"
    using Cons.prems by (intro Cons.IH) auto
  then show ?case using step by simp
qed

lemma nextStates_weight:
  "pqWeight env bs (nextStates env bs best cur v pq)
   \<le> pqWeight env bs pq
      + 2 * length bs * (2 * length bs + 1) ^ (2 * length (v_states v) - progress (v_states v))"
proof -
  let ?B = "(2 * length bs + 1) ^ (2 * length (v_states v) - progress (v_states v))"
  have p: "pqWeight env bs (enqueuePurchases env bs best cur v pq) \<le> pqWeight env bs pq + length bs * ?B"
    using enqueuePurchases_fold_weight[of v "[0..<length bs]" bs env best cur pq]
    by (auto simp: enqueuePurchases_def)
  have "pqWeight env bs (nextStates env bs best cur v pq)
        \<le> pqWeight env bs (enqueuePurchases env bs best cur v pq) + length bs * ?B"
    using enqueueSales_fold_weight[of "[0..<length bs]" bs env v best cur]
    by (auto simp: nextStates_def enqueueSales_def)
  then show ?thesis using p by (simp add: algebra_simps)
qed

lemma nextStates_decreases:
  assumes "v_states v = v_states (visit env bs s)"
  shows "pqWeight env bs (nextStates env bs best cur v rest) < pqWeight env bs (s # rest)"
proof -
  let ?n = "2 * length bs"
  let ?M = "2 * length (v_states v) - progress (v_states v)"
  have M: "?M = remaining env bs s" using assms by (simp add: remaining_def)
  have "?n * (?n + 1) ^ ?M < (?n + 1) * (?n + 1) ^ ?M" by simp
  then have "?n * (?n + 1) ^ ?M < weight env bs s" by (simp add: weight_def M)
  then show ?thesis using nextStates_weight[of env bs best cur v rest]
    by (simp add: pqWeight_def)
qed

lemma weight_pos: "0 < weight env bs s"
  by (simp add: weight_def)

lemma iteration_decreases:
  "iteration env bs best rt pq vis = Continue pq' vis' \<Longrightarrow> pqWeight env bs pq' < pqWeight env bs pq"
proof (cases pq)
  case Nil
  assume "iteration env bs best rt pq vis = Continue pq' vis'"
  then show ?thesis using Nil by (simp add: iteration_def)
next
  case (Cons s rest)
  assume a: "iteration env bs best rt pq vis = Continue pq' vis'"
  have r: "pqWeight env bs q < pqWeight env bs (s # q)" for q
    using weight_pos[of env bs s] by (simp add: pqWeight_def)
  have n: "pqWeight env bs (nextStates env bs best cur v q) < pqWeight env bs (s # q)"
    if "v_states v = v_states (visit env bs s)" for v cur q
    using that by (rule nextStates_decreases)
  from a Cons show ?thesis
    by (auto simp: iteration_def Let_def split: if_splits option.splits intro!: r n)
qed

text \<open>The \<^verbatim>\<open>while\<close> loop: it returns the route of the first accepted terminal state, or
  \<^verbatim>\<open>null\<close> (\<open>None\<close>) once the queue is empty.\<close>

function search :: "Env \<Rightarrow> string list \<Rightarrow> rat \<Rightarrow> bool \<Rightarrow> SearchState list \<Rightarrow>
    ((node \<times> BountyStatus list) \<times> rat) list \<Rightarrow> Route option" where
  "search env bounties bestDistance roundTrip pq visited =
     (case iteration env bounties bestDistance roundTrip pq visited of
        Done r \<Rightarrow> r
      | Continue pq' visited' \<Rightarrow> search env bounties bestDistance roundTrip pq' visited')"
  by pat_completeness auto
termination
  by (relation "measure (\<lambda>(env, bounties, bestDistance, roundTrip, pq, visited). pqWeight env bounties pq)")
     (auto dest: iteration_decreases)

text \<open>\<^verbatim>\<open>findBestRoute(bounties, gps, threshold, roundTrip)\<close>.\<close>

definition initialState :: "Env \<Rightarrow> string list \<Rightarrow> SearchState" where
  "initialState env bounties =
     \<lparr>s_distance = 0, previousNode = None, currentNode = m_node (bountyBoard env),
      bountyStates = replicate (length bounties) NOT_STARTED, actions = []\<rparr>"

definition findBestRoute :: "Env \<Rightarrow> string list \<Rightarrow> rat \<Rightarrow> bool \<Rightarrow> Route option" where
  "findBestRoute env bounties threshold roundTrip =
     search env bounties threshold roundTrip (enqueue (initialState env bounties) []) []"

section \<open>What the search returns\<close>

lemma enqueue_set [simp]: "set (enqueue s pq) = insert s (set pq)"
  by (induction pq) auto

lemma travelTo_set:
  "s' \<in> set (travelTo env best cur v nxt pq) \<Longrightarrow>
   s' \<in> set pq \<or>
   s' = \<lparr>s_distance = v_distance v + g_distance (gps env (Some cur) nxt), previousNode = Some cur,
         currentNode = nxt, bountyStates = v_states v, actions = v_actions v\<rparr>"
  by (auto simp: travelTo_def Let_def split: if_splits)

definition successors :: "Env \<Rightarrow> node \<Rightarrow> Visit \<Rightarrow> SearchState set" where
  "successors env cur v =
     {\<lparr>s_distance = v_distance v + g_distance (gps env (Some cur) nxt), previousNode = Some cur,
       currentNode = nxt, bountyStates = v_states v, actions = v_actions v\<rparr> | nxt. True}"

lemma travelTo_subset:
  "set (travelTo env best cur v nxt pq) \<subseteq> set pq \<union> successors env cur v"
  using travelTo_set[of _ env best cur v nxt pq] by (auto simp: successors_def)

lemma fold_travel_subset:
  assumes "\<And>i q. set (f i q) \<subseteq> set q \<union> S"
  shows "set (fold f is pq) \<subseteq> set pq \<union> S"
proof (induction "is" arbitrary: pq)
  case Nil show ?case by simp
next
  case (Cons i "is")
  show ?case using Cons[of "f i pq"] assms[of i pq] by auto
qed

lemma nextStates_subset:
  "set (nextStates env bs best cur v pq) \<subseteq> set pq \<union> successors env cur v"
proof -
  have p: "set (enqueuePurchases env bs best cur v pq) \<subseteq> set pq \<union> successors env cur v"
  proof (cases "canPurchaseMoreItems (v_states v)")
    case True
    have "set (fold (\<lambda>i q. if i < length (v_states v) \<and> v_states v ! i = NOT_STARTED
                     then travelTo env best cur v
                            (m_node (seller (bountyData env (bs ! i)))) q
                     else q) [0..<length bs] pq) \<subseteq> set pq \<union> successors env cur v"
      using travelTo_subset[of env best cur v]
      by (intro fold_travel_subset) auto
    then show ?thesis using True by (simp add: enqueuePurchases_def)
  next
    case False then show ?thesis by (simp add: enqueuePurchases_def)
  qed
  have "set (nextStates env bs best cur v pq)
        \<subseteq> set (enqueuePurchases env bs best cur v pq) \<union> successors env cur v"
    unfolding nextStates_def enqueueSales_def
    using travelTo_subset[of env best cur v]
    by (intro fold_travel_subset) auto
  then show ?thesis using p by blast
qed


lemma fold_enqueue_set:
  assumes "\<And>i q. set (f i q) = set q \<union> A i"
  shows "set (fold f is pq) = set pq \<union> (\<Union>i\<in>set is. A i)"
proof (induction "is" arbitrary: pq)
  case Nil show ?case by simp
next
  case (Cons i "is")
  show ?case using Cons[of "f i pq"] assms[of i pq] by auto
qed

lemma travelTo_set_eq:
  "set (travelTo env best cur v nxt pq) = set pq \<union> set (travelTo env best cur v nxt [])"
  by (auto simp: travelTo_def Let_def)

lemma enqueuePurchases_set:
  "set (enqueuePurchases env bs best cur v pq)
   = set pq \<union> set (enqueuePurchases env bs best cur v [])"
proof -
  define f where "f = (\<lambda>i q. if i < length (v_states v) \<and> v_states v ! i = NOT_STARTED
                     then travelTo env best cur v (m_node (seller (bountyData env (bs ! i)))) q
                     else q)"
  define A where "A = (\<lambda>i. set (f i []))"
  have a: "set (f i q) = set q \<union> A i" for i q
    using travelTo_set_eq[of env best cur v _ q] by (auto simp: f_def A_def)
  have u: "set (fold f is q) = set q \<union> (\<Union>i\<in>set is. A i)" for "is" q
    using a by (rule fold_enqueue_set)
  have e: "set (fold f [0..<length bs] pq) = set pq \<union> set (fold f [0..<length bs] [])"
    unfolding u[of "[0..<length bs]" pq] u[of "[0..<length bs]" "[]"] by simp
  show ?thesis
  proof (cases "canPurchaseMoreItems (v_states v)")
    case True then show ?thesis using e by (simp add: enqueuePurchases_def f_def)
  next
    case False then show ?thesis by (simp add: enqueuePurchases_def)
  qed
qed

lemma enqueueSales_set:
  "set (enqueueSales env bs best cur v pq)
   = set pq \<union> set (enqueueSales env bs best cur v [])"
proof -
  define f where "f = (\<lambda>i q. if i < length (v_states v) \<and> v_states v ! i = IN_PROGRESS
                     then travelTo env best cur v (m_node (buyer (bountyData env (bs ! i)))) q
                     else q)"
  define A where "A = (\<lambda>i. set (f i []))"
  have a: "set (f i q) = set q \<union> A i" for i q
    using travelTo_set_eq[of env best cur v _ q] by (auto simp: f_def A_def)
  have u: "set (fold f is q) = set q \<union> (\<Union>i\<in>set is. A i)" for "is" q
    using a by (rule fold_enqueue_set)
  have e: "set (fold f [0..<length bs] pq) = set pq \<union> set (fold f [0..<length bs] [])"
    unfolding u[of "[0..<length bs]" pq] u[of "[0..<length bs]" "[]"] by simp
  show ?thesis using e by (simp add: enqueueSales_def f_def)
qed

lemma nextStates_set:
  "set (nextStates env bs best cur v pq) = set pq \<union> set (nextStates env bs best cur v [])"
  unfolding nextStates_def
  using enqueueSales_set[of env bs best cur v "enqueuePurchases env bs best cur v pq"]
        enqueueSales_set[of env bs best cur v "enqueuePurchases env bs best cur v []"]
        enqueuePurchases_set[of env bs best cur v pq]
  by auto

lemma completed_no_successors:
  assumes "deliveriesCompleted (v_states v)"
  shows "nextStates env bs best cur v pq = pq"
proof -
  have c: "\<And>i. i < length (v_states v) \<Longrightarrow> v_states v ! i = COMPLETED"
    using assms by (simp add: deliveriesCompleted_def list_all_length)
  have f: "fold (\<lambda>i q. if i < length (v_states v) \<and> v_states v ! i = st
                     then g i q else q) is q = q" if "st \<noteq> COMPLETED" for g "is" q st
    using that c by (induction "is" arbitrary: q) auto
  show ?thesis
    by (simp add: nextStates_def enqueueSales_def enqueuePurchases_def f)
qed

text \<open>
  The route a terminal state yields: its actions and time, after the return leg to the
  bounty board when a round trip is asked for and the state is not at the board.
\<close>

definition routeOf :: "Env \<Rightarrow> string list \<Rightarrow> bool \<Rightarrow> SearchState \<Rightarrow> Route" where
  "routeOf env bounties roundTrip s =
     (let v = visit env bounties s; board = m_node (bountyBoard env) in
      if roundTrip \<and> currentNode s \<noteq> board then
        let distance = v_distance v + g_distance (gps env (Some (currentNode s)) board)
        in \<lparr>r_actions = addTravelSteps env (v_actions v) (Some (currentNode s)) board
                         @ [Return (m_name (bountyBoard env)) distance],
            r_distance = distance\<rparr>
      else \<lparr>r_actions = v_actions v, r_distance = v_distance v\<rparr>)"

text \<open>
  The test on the \<^verbatim>\<open>visited\<close> map: the key of the state has an entry, and the entry is no
  later than the state's own time.
\<close>

definition handled :: "((node \<times> BountyStatus list) \<times> rat) list \<Rightarrow> SearchState \<Rightarrow> bool" where
  "handled visited s \<longleftrightarrow>
     (case map_of visited (currentNode s, bountyStates s) of
        Some d \<Rightarrow> d \<le> s_distance s
      | None \<Rightarrow> False)"

text \<open>What an iteration does with the head of the queue, case by case.\<close>

lemma iteration_Cons:
  "iteration env bs best rt (s # rest) vis =
     (if best \<le> s_distance s \<or> handled vis s then Continue rest vis
      else if best \<le> v_distance (visit env bs s)
        then Continue rest (((currentNode s, bountyStates s), s_distance s) # vis)
      else if deliveriesCompleted (v_states (visit env bs s)) then
        (if r_distance (routeOf env bs rt s) < best then Done (Some (routeOf env bs rt s))
         else Continue rest (((currentNode s, bountyStates s), s_distance s) # vis))
      else Continue (nextStates env bs best (currentNode s) (visit env bs s) rest)
             (((currentNode s, bountyStates s), s_distance s) # vis))"
  by (auto simp: iteration_def handled_def routeOf_def Let_def completed_no_successors
           split: option.splits)

lemma search_invariant:
  assumes "search env bs best rt pq vis = Some r"
    and "\<forall>s\<in>set pq. I s"
    and "\<And>s s'. I s \<Longrightarrow> s_distance s < best \<Longrightarrow> v_distance (visit env bs s) < best \<Longrightarrow>
           s' \<in> set (nextStates env bs best (currentNode s) (visit env bs s) []) \<Longrightarrow> I s'"
  shows "\<exists>s. I s \<and> s_distance s < best \<and> v_distance (visit env bs s) < best \<and>
             deliveriesCompleted (v_states (visit env bs s)) \<and> r_distance r < best \<and>
             r = routeOf env bs rt s"
  using assms
proof (induction env bs best rt pq vis rule: search.induct)
  case (1 env bs best rt pq vis)
  show ?case
  proof (cases pq)
    case Nil
    then show ?thesis using "1.prems" by (simp add: iteration_def)
  next
    case (Cons s rest)
    have Is: "I s" using "1.prems"(2) Cons by simp
    show ?thesis
    proof (cases "iteration env bs best rt pq vis")
      case (Done r')
      then have "iteration env bs best rt (s # rest) vis = Done (Some r)"
        using "1.prems"(1) Cons by simp
      then have "s_distance s < best \<and> v_distance (visit env bs s) < best \<and>
                 deliveriesCompleted (v_states (visit env bs s)) \<and> r_distance r < best \<and>
                 r = routeOf env bs rt s"
        by (auto simp: iteration_Cons split: if_splits)
      then show ?thesis using Is by blast
    next
      case (Continue pq' vis')
      then have it: "iteration env bs best rt (s # rest) vis = Continue pq' vis'"
        using Cons by simp
      have n: "set (nextStates env bs best (currentNode s) (visit env bs s) rest)
               = set rest \<union> set (nextStates env bs best (currentNode s) (visit env bs s) [])"
        by (rule nextStates_set)
      have sub: "x \<in> set rest \<or>
                 (s_distance s < best \<and> v_distance (visit env bs s) < best \<and>
                  x \<in> set (nextStates env bs best (currentNode s) (visit env bs s) []))"
        if "x \<in> set pq'" for x
        using it that n by (auto simp: iteration_Cons split: if_splits)
      have "\<forall>x\<in>set pq'. I x"
      proof
        fix x assume "x \<in> set pq'"
        from sub[OF this] show "I x"
        proof
          assume "x \<in> set rest" then show ?thesis using "1.prems"(2) Cons by simp
        next
          assume "s_distance s < best \<and> v_distance (visit env bs s) < best \<and>
                  x \<in> set (nextStates env bs best (currentNode s) (visit env bs s) [])"
          then show ?thesis using "1.prems"(3)[OF Is] by blast
        qed
      qed
      moreover have "search env bs best rt pq' vis' = Some r"
        using "1.prems"(1) Continue by simp
      ultimately show ?thesis using "1.IH"[OF Continue] "1.prems"(3) by blast
    qed
  qed
qed

text \<open>
  The search space under a bound: the first state, and every state the loop puts on its
  queue when it expands a state that has passed both pruning tests (its arrival time and
  its time after the stop are below the bound). A state whose visit completes every
  delivery is terminal.
\<close>

inductive reached :: "Env \<Rightarrow> string list \<Rightarrow> rat \<Rightarrow> SearchState \<Rightarrow> bool"
  for env :: Env and bounties :: "string list" and bestDistance :: rat where
  start: "reached env bounties bestDistance (initialState env bounties)"
| move: "reached env bounties bestDistance s \<Longrightarrow>
         s_distance s < bestDistance \<Longrightarrow>
         v_distance (visit env bounties s) < bestDistance \<Longrightarrow>
         s' \<in> set (nextStates env bounties bestDistance (currentNode s) (visit env bounties s) []) \<Longrightarrow>
         reached env bounties bestDistance s'"

lemma findBestRoute_invariant:
  assumes "findBestRoute env bs best rt = Some r"
    and "I (initialState env bs)"
    and "\<And>s s'. reached env bs best s \<Longrightarrow> I s \<Longrightarrow>
           s' \<in> set (nextStates env bs best (currentNode s) (visit env bs s) []) \<Longrightarrow> I s'"
  shows "\<exists>s. reached env bs best s \<and> I s \<and> deliveriesCompleted (v_states (visit env bs s)) \<and>
             r_distance r < best \<and> r = routeOf env bs rt s"
proof -
  have "\<exists>s. (reached env bs best s \<and> I s) \<and> s_distance s < best \<and>
             v_distance (visit env bs s) < best \<and>
             deliveriesCompleted (v_states (visit env bs s)) \<and>
             r_distance r < best \<and> r = routeOf env bs rt s"
  proof (rule search_invariant[where pq="enqueue (initialState env bs) []" and vis="[]"])
    show "search env bs best rt (enqueue (initialState env bs) []) [] = Some r"
      using assms(1) by (simp add: findBestRoute_def)
    show "\<forall>s\<in>set (enqueue (initialState env bs) []). reached env bs best s \<and> I s"
      using assms(2) by (simp add: reached.start)
    show "reached env bs best s' \<and> I s'"
      if "reached env bs best s \<and> I s" "s_distance s < best"
        "v_distance (visit env bs s) < best"
        "s' \<in> set (nextStates env bs best (currentNode s) (visit env bs s) [])" for s s'
      using that assms(3) reached.move by blast
  qed
  then show ?thesis by blast
qed

section \<open>Where the search can go\<close>

text \<open>
  The state in which the planner arrives at \<open>nextNode\<close> after a stop, and the nodes it
  travels to from a stop: the seller of every bounty not started, as long as the inventory
  has room, and the buyer of every bounty in progress. The queue receives exactly the
  arrivals at these nodes whose time is below the bound.
\<close>

definition arrive :: "Env \<Rightarrow> node \<Rightarrow> Visit \<Rightarrow> node \<Rightarrow> SearchState" where
  "arrive env cur v nextNode =
     \<lparr>s_distance = v_distance v + g_distance (gps env (Some cur) nextNode),
      previousNode = Some cur, currentNode = nextNode,
      bountyStates = v_states v, actions = v_actions v\<rparr>"

definition destinations :: "Env \<Rightarrow> string list \<Rightarrow> BountyStatus list \<Rightarrow> node list" where
  "destinations env bounties sts =
     (if canPurchaseMoreItems sts
      then map (\<lambda>i. m_node (seller (bountyData env (bounties ! i))))
             (filter (\<lambda>i. i < length sts \<and> sts ! i = NOT_STARTED) [0..<length bounties])
      else [])
     @ map (\<lambda>i. m_node (buyer (bountyData env (bounties ! i))))
         (filter (\<lambda>i. i < length sts \<and> sts ! i = IN_PROGRESS) [0..<length bounties])"

lemma travelTo_char:
  "set (travelTo env best cur v nxt pq)
   = set pq \<union> (if s_distance (arrive env cur v nxt) < best then {arrive env cur v nxt} else {})"
  by (simp add: travelTo_def arrive_def Let_def)

lemma enqueuePurchases_char:
  "set (enqueuePurchases env bs best cur v pq)
   = set pq \<union> (if canPurchaseMoreItems (v_states v)
       then {arrive env cur v (m_node (seller (bountyData env (bs ! i)))) | i.
              i < length bs \<and> i < length (v_states v) \<and> v_states v ! i = NOT_STARTED \<and>
              s_distance (arrive env cur v (m_node (seller (bountyData env (bs ! i))))) < best}
       else {})"
proof -
  define f where "f = (\<lambda>i q. if i < length (v_states v) \<and> v_states v ! i = NOT_STARTED
                     then travelTo env best cur v (m_node (seller (bountyData env (bs ! i)))) q
                     else q)"
  define A where "A = (\<lambda>i. set (f i []))"
  have a: "set (f i q) = set q \<union> A i" for i q
    by (auto simp: f_def A_def travelTo_char)
  have u: "set (fold f is q) = set q \<union> (\<Union>i\<in>set is. A i)" for "is" q
    using a by (rule fold_enqueue_set)
  have A: "A i = (if i < length (v_states v) \<and> v_states v ! i = NOT_STARTED \<and>
              s_distance (arrive env cur v (m_node (seller (bountyData env (bs ! i))))) < best
              then {arrive env cur v (m_node (seller (bountyData env (bs ! i))))} else {})" for i
    by (simp add: A_def f_def travelTo_char)
  show ?thesis
  proof (cases "canPurchaseMoreItems (v_states v)")
    case True
    have "set (enqueuePurchases env bs best cur v pq) = set (fold f [0..<length bs] pq)"
      using True by (simp add: enqueuePurchases_def f_def)
    also have "\<dots> = set pq \<union> (\<Union>i\<in>set [0..<length bs]. A i)" by (rule u)
    finally show ?thesis using True by (auto simp: A split: if_splits)
  next
    case False then show ?thesis by (simp add: enqueuePurchases_def)
  qed
qed

lemma enqueueSales_char:
  "set (enqueueSales env bs best cur v pq)
   = set pq \<union> {arrive env cur v (m_node (buyer (bountyData env (bs ! i)))) | i.
              i < length bs \<and> i < length (v_states v) \<and> v_states v ! i = IN_PROGRESS \<and>
              s_distance (arrive env cur v (m_node (buyer (bountyData env (bs ! i))))) < best}"
proof -
  define f where "f = (\<lambda>i q. if i < length (v_states v) \<and> v_states v ! i = IN_PROGRESS
                     then travelTo env best cur v (m_node (buyer (bountyData env (bs ! i)))) q
                     else q)"
  define A where "A = (\<lambda>i. set (f i []))"
  have a: "set (f i q) = set q \<union> A i" for i q
    by (auto simp: f_def A_def travelTo_char)
  have u: "set (fold f is q) = set q \<union> (\<Union>i\<in>set is. A i)" for "is" q
    using a by (rule fold_enqueue_set)
  have A: "A i = (if i < length (v_states v) \<and> v_states v ! i = IN_PROGRESS \<and>
              s_distance (arrive env cur v (m_node (buyer (bountyData env (bs ! i))))) < best
              then {arrive env cur v (m_node (buyer (bountyData env (bs ! i))))} else {})" for i
    by (simp add: A_def f_def travelTo_char)
  have "set (enqueueSales env bs best cur v pq) = set (fold f [0..<length bs] pq)"
    by (simp add: enqueueSales_def f_def)
  also have "\<dots> = set pq \<union> (\<Union>i\<in>set [0..<length bs]. A i)" by (rule u)
  finally show ?thesis by (auto simp: A split: if_splits)
qed

lemma nextStates_char:
  "set (nextStates env bs best cur v [])
   = {arrive env cur v nxt | nxt.
        nxt \<in> set (destinations env bs (v_states v)) \<and> s_distance (arrive env cur v nxt) < best}"
  unfolding nextStates_def enqueueSales_char enqueuePurchases_char destinations_def
  by (cases "canPurchaseMoreItems (v_states v)") auto

text \<open>
  An itinerary is a list of nodes to travel to, one after the other, from a given state;
  it can be followed when every node is a destination at the stop before it.
\<close>

fun follow :: "Env \<Rightarrow> string list \<Rightarrow> SearchState \<Rightarrow> node list \<Rightarrow> SearchState option" where
  "follow env bounties s [] = Some s"
| "follow env bounties s (nextNode # nodes) =
     (if nextNode \<in> set (destinations env bounties (v_states (visit env bounties s)))
      then follow env bounties (arrive env (currentNode s) (visit env bounties s) nextNode) nodes
      else None)"

section \<open>A route under the threshold is found\<close>

text \<open>
  What happens at a stop depends on the node and the statuses only: the same stop made
  \<open>d\<close> later ends \<open>d\<close> later, with the same statuses.
\<close>

definition shifted :: "rat \<Rightarrow> Visit \<Rightarrow> Visit \<Rightarrow> bool" where
  "shifted d v w \<longleftrightarrow>
     v_states w = v_states v \<and> numItemsBought w = numItemsBought v \<and>
     numItemsSold w = numItemsSold v \<and> v_distance w = v_distance v + d"

lemma sellAt_shifted:
  "shifted d v w \<Longrightarrow> shifted d (sellAt env bs p c i v) (sellAt env bs p' c i w)"
  by (simp add: shifted_def sellAt_def Let_def)

lemma buyAt_shifted:
  "shifted d v w \<Longrightarrow> shifted d (buyAt env bs p c i v) (buyAt env bs p' c i w)"
  by (simp add: shifted_def buyAt_def Let_def)

lemma sellLoop_shifted:
  "shifted d v w \<Longrightarrow> shifted d (sellLoop env bs p c v) (sellLoop env bs p' c w)"
proof -
  have "shifted d v w \<Longrightarrow>
        shifted d (fold (sellAt env bs p c) is v) (fold (sellAt env bs p' c) is w)" for "is"
    by (induction "is" arbitrary: v w) (auto intro: sellAt_shifted)
  then show "shifted d v w \<Longrightarrow> ?thesis" by (simp add: sellLoop_def)
qed

lemma buyLoop_shifted:
  "shifted d v w \<Longrightarrow> shifted d (buyLoop env bs p c is v) (buyLoop env bs p' c is w)"
proof (induction "is" arbitrary: v w)
  case Nil then show ?case by simp
next
  case (Cons i "is")
  have "v_states w = v_states v" using Cons.prems by (simp add: shifted_def)
  then show ?case using Cons.prems Cons.IH[OF buyAt_shifted[OF Cons.prems]] by simp
qed

text \<open>
  A state dominates another when it is at the same node with the same statuses, no later.
  These are the states the \<^verbatim>\<open>visited\<close> map lets the loop skip.
\<close>

definition dominates :: "SearchState \<Rightarrow> SearchState \<Rightarrow> bool" where
  "dominates h s \<longleftrightarrow>
     currentNode h = currentNode s \<and> bountyStates h = bountyStates s \<and>
     s_distance h \<le> s_distance s"

lemma visit_shifted:
  assumes "currentNode h = currentNode s" "bountyStates h = bountyStates s"
  shows "shifted (s_distance s - s_distance h) (visit env bs h) (visit env bs s)"
  unfolding visit_def assms
  by (intro buyLoop_shifted sellLoop_shifted) (simp add: shifted_def)

lemma visit_dominates:
  assumes "dominates h s"
  shows "v_states (visit env bs h) = v_states (visit env bs s)"
    and "v_distance (visit env bs h) \<le> v_distance (visit env bs s)"
  using visit_shifted[of h s env bs] assms by (auto simp: dominates_def shifted_def)

lemma routeOf_distance:
  "r_distance (routeOf env bs rt s)
   = v_distance (visit env bs s)
     + (if rt \<and> currentNode s \<noteq> m_node (bountyBoard env)
        then g_distance (gps env (Some (currentNode s)) (m_node (bountyBoard env))) else 0)"
  by (simp add: routeOf_def Let_def)

lemma routeOf_dominates:
  assumes "dominates h s"
  shows "r_distance (routeOf env bs rt h) \<le> r_distance (routeOf env bs rt s)"
  using visit_dominates(2)[OF assms, of env bs] assms
  by (simp add: routeOf_distance dominates_def)

lemma nextStates_dominates:
  assumes "dominates h s"
    and "s' \<in> set (nextStates env bs best (currentNode s) (visit env bs s) [])"
  shows "\<exists>h'\<in>set (nextStates env bs best (currentNode h) (visit env bs h) []). dominates h' s'"
proof -
  from assms(2) obtain nxt where n: "s' = arrive env (currentNode s) (visit env bs s) nxt"
      "nxt \<in> set (destinations env bs (v_states (visit env bs s)))"
      "s_distance s' < best"
    by (auto simp: nextStates_char)
  let ?h' = "arrive env (currentNode h) (visit env bs h) nxt"
  have d: "dominates ?h' s'"
    using visit_dominates[OF assms(1), of env bs] assms(1) n(1)
    by (simp add: dominates_def arrive_def)
  then have "s_distance ?h' < best" using n(3) by (simp add: dominates_def)
  then have "?h' \<in> set (nextStates env bs best (currentNode h) (visit env bs h) [])"
    using n(2) visit_dominates(1)[OF assms(1), of env bs] by (auto simp: nextStates_char)
  then show ?thesis using d by blast
qed

text \<open>
  A state leads to a route in \<open>n\<close> moves when it passes both pruning tests and either its
  visit completes every delivery with a route below the bound (\<open>n = 0\<close>), or one of the
  states it puts on the queue leads to a route in \<open>n - 1\<close> moves.
\<close>

fun leads :: "Env \<Rightarrow> string list \<Rightarrow> rat \<Rightarrow> bool \<Rightarrow> nat \<Rightarrow> SearchState \<Rightarrow> bool" where
  "leads env bounties best roundTrip 0 s \<longleftrightarrow>
     s_distance s < best \<and> v_distance (visit env bounties s) < best \<and>
     deliveriesCompleted (v_states (visit env bounties s)) \<and>
     r_distance (routeOf env bounties roundTrip s) < best"
| "leads env bounties best roundTrip (Suc n) s \<longleftrightarrow>
     s_distance s < best \<and> v_distance (visit env bounties s) < best \<and>
     (\<exists>s'\<in>set (nextStates env bounties best (currentNode s) (visit env bounties s) []).
        leads env bounties best roundTrip n s')"

lemma leads_dominates:
  "dominates h s \<Longrightarrow> leads env bs best rt n s \<Longrightarrow> leads env bs best rt n h"
proof (induction n arbitrary: h s)
  case 0
  then show ?case
    using visit_dominates[OF "0.prems"(1), of env bs] routeOf_dominates[OF "0.prems"(1), of env bs rt]
    by (auto simp: dominates_def)
next
  case (Suc n)
  from Suc.prems(2) obtain s' where s':
      "s' \<in> set (nextStates env bs best (currentNode s) (visit env bs s) [])"
      "leads env bs best rt n s'"
    by auto
  from nextStates_dominates[OF Suc.prems(1) s'(1)] obtain h' where h':
      "h' \<in> set (nextStates env bs best (currentNode h) (visit env bs h) [])" "dominates h' s'"
    by blast
  have "leads env bs best rt n h'" using Suc.IH[OF h'(2) s'(2)] .
  then show ?case
    using h'(1) Suc.prems visit_dominates[OF Suc.prems(1), of env bs]
    by (auto simp: dominates_def)
qed

lemma leads_completed:
  assumes "deliveriesCompleted (v_states (visit env bs s))"
  shows "\<not> leads env bs best rt (Suc n) s"
  using completed_no_successors[OF assms, of env bs best "currentNode s" "[]"] by simp

lemma leads_not_completed:
  assumes "\<not> deliveriesCompleted (v_states (visit env bs s))" "leads env bs best rt n s"
  shows "\<exists>k s'. n = Suc k \<and> s' \<in> set (nextStates env bs best (currentNode s) (visit env bs s) []) \<and>
           leads env bs best rt k s'"
  using assms by (cases n) auto

lemma handled_Cons:
  assumes "handled (((currentNode h, bountyStates h), s_distance h) # vis) s"
  shows "dominates h s \<or> handled vis s"
  using assms by (auto simp: handled_def dominates_def split: if_splits)

text \<open>
  The invariant of the loop: whenever a state skipped through the \<^verbatim>\<open>visited\<close> map leads to a
  route, a state on the queue leads to one in fewer moves.
\<close>

definition covered :: "Env \<Rightarrow> string list \<Rightarrow> rat \<Rightarrow> bool \<Rightarrow> SearchState list \<Rightarrow>
    ((node \<times> BountyStatus list) \<times> rat) list \<Rightarrow> bool" where
  "covered env bs best rt pq vis \<longleftrightarrow>
     (\<forall>s n. handled vis s \<and> leads env bs best rt n s \<longrightarrow>
        (\<exists>s'\<in>set pq. \<exists>m<n. leads env bs best rt m s'))"

lemma covered_chase:
  assumes "covered env bs best rt (h # q) vis" "handled vis h"
  shows "leads env bs best rt m h \<Longrightarrow> \<exists>s'\<in>set q. \<exists>k<m. leads env bs best rt k s'"
proof (induction m rule: less_induct)
  case (less m)
  from assms less.prems obtain s' k where s': "s' \<in> set (h # q)" "k < m" "leads env bs best rt k s'"
    unfolding covered_def by blast
  show ?case
  proof (cases "s' = h")
    case True
    from less.IH[OF s'(2)] s'(3) True obtain s'' j where
      "s'' \<in> set q" "j < k" "leads env bs best rt j s''" by blast
    then show ?thesis using s'(2) by (meson less_trans)
  next
    case False
    then show ?thesis using s' by auto
  qed
qed

lemma covered_step:
  assumes c: "covered env bs best rt (h # rest) vis"
    and sub: "set rest \<subseteq> set pq'"
    and hd: "\<And>s. handled vis' s \<Longrightarrow> dominates h s \<or> handled vis s"
    and ex: "\<And>m. leads env bs best rt m h \<Longrightarrow> \<exists>s'\<in>set pq'. \<exists>k<m. leads env bs best rt k s'"
  shows "covered env bs best rt pq' vis'"
    and "\<exists>s\<in>set (h # rest). \<exists>n. leads env bs best rt n s \<Longrightarrow>
         \<exists>s\<in>set pq'. \<exists>n. leads env bs best rt n s"
proof -
  have q: "\<exists>s'\<in>set pq'. \<exists>k\<le>m. leads env bs best rt k s'"
    if "s \<in> set (h # rest)" "leads env bs best rt m s" for s m
  proof (cases "s = h")
    case True
    from ex[of m] that True obtain s' k where "s' \<in> set pq'" "k < m" "leads env bs best rt k s'"
      by blast
    then show ?thesis by (meson less_imp_le)
  next
    case False
    then have "s \<in> set pq'" using that(1) sub by auto
    then show ?thesis using that(2) by blast
  qed
  show "covered env bs best rt pq' vis'"
    unfolding covered_def
  proof (intro allI impI)
    fix s n assume a: "handled vis' s \<and> leads env bs best rt n s"
    from hd[of s] a consider "dominates h s" | "handled vis s" by blast
    then show "\<exists>s'\<in>set pq'. \<exists>m<n. leads env bs best rt m s'"
    proof cases
      case 1
      then have "leads env bs best rt n h" using a leads_dominates by blast
      from ex[OF this] show ?thesis .
    next
      case 2
      with c a obtain s' m where s': "s' \<in> set (h # rest)" "m < n" "leads env bs best rt m s'"
        unfolding covered_def by blast
      from q[OF s'(1) s'(3)] obtain s'' k where
        "s'' \<in> set pq'" "k \<le> m" "leads env bs best rt k s''" by blast
      then show ?thesis using s'(2) by (meson le_less_trans)
    qed
  qed
  show "\<exists>s\<in>set pq'. \<exists>n. leads env bs best rt n s"
    if "\<exists>s\<in>set (h # rest). \<exists>n. leads env bs best rt n s"
    using that q by blast
qed

lemma leads_bounds:
  "leads env bs best rt n s \<Longrightarrow> s_distance s < best \<and> v_distance (visit env bs s) < best"
  by (cases n) auto

lemma search_complete:
  assumes "covered env bs best rt pq vis"
    and "\<exists>s\<in>set pq. \<exists>n. leads env bs best rt n s"
  shows "search env bs best rt pq vis \<noteq> None"
  using assms
proof (induction env bs best rt pq vis rule: search.induct)
  case (1 env bs best rt pq vis)
  show ?case
  proof (cases pq)
    case Nil
    then show ?thesis using "1.prems"(2) by simp
  next
    case (Cons h rest)
    let ?vis' = "((currentNode h, bountyStates h), s_distance h) # vis"
    let ?v = "visit env bs h"
    note c = "1.prems"(1)[unfolded Cons]
    note e = "1.prems"(2)[unfolded Cons]
    show ?thesis
    proof (cases "iteration env bs best rt pq vis")
      case (Done r)
      then have "r \<noteq> None"
        using Cons by (auto simp: iteration_Cons split: if_splits)
      then show ?thesis using Done by simp
    next
      case (Continue pq' vis')
      have it: "iteration env bs best rt (h # rest) vis = Continue pq' vis'"
        using Continue Cons by simp
      have step: "covered env bs best rt pq' vis' \<and> (\<exists>s\<in>set pq'. \<exists>n. leads env bs best rt n s)"
      proof (cases "best \<le> s_distance h")
        case skip: True
        have r: "pq' = rest" "vis' = vis" using it skip by (simp_all add: iteration_Cons)
        have n: "\<not> leads env bs best rt m h" for m
          using skip leads_bounds[of env bs best rt m h] by auto
        have hd: "handled vis' s \<Longrightarrow> dominates h s \<or> handled vis s" for s
          using r by simp
        from covered_step[OF c _ hd, where pq'=pq'] e n r show ?thesis by blast
      next
        case near: False
        show ?thesis
        proof (cases "handled vis h")
          case seen: True
          have r: "pq' = rest" "vis' = vis" using it seen by (simp_all add: iteration_Cons)
          have hd: "handled vis' s \<Longrightarrow> dominates h s \<or> handled vis s" for s
            using r by simp
          have x: "\<exists>s'\<in>set pq'. \<exists>k<m. leads env bs best rt k s'"
            if "leads env bs best rt m h" for m
            using covered_chase[OF c seen that] r by simp
          from covered_step[OF c _ hd x] e r show ?thesis by blast
        next
          case fresh: False
          have hd: "handled ?vis' s \<Longrightarrow> dominates h s \<or> handled vis s" for s
            by (rule handled_Cons)
          show ?thesis
          proof (cases "best \<le> v_distance ?v")
            case far: True
            have r: "pq' = rest" "vis' = ?vis'"
              using it near fresh far by (simp_all add: iteration_Cons)
            have n: "\<not> leads env bs best rt m h" for m
              using far leads_bounds[of env bs best rt m h] by auto
            from covered_step[OF c _ hd, where pq'=pq'] e n r show ?thesis by blast
          next
            case close: False
            show ?thesis
            proof (cases "deliveriesCompleted (v_states ?v)")
              case compl: True
              have late: "\<not> r_distance (routeOf env bs rt h) < best"
                using it near fresh close compl by (auto simp: iteration_Cons split: if_splits)
              have r: "pq' = rest" "vis' = ?vis'"
                using it near fresh close compl late by (simp_all add: iteration_Cons)
              have n: "\<not> leads env bs best rt m h" for m
                using late leads_completed[OF compl, of best rt] by (cases m) auto
              from covered_step[OF c _ hd, where pq'=pq'] e n r show ?thesis by blast
            next
              case more: False
              have r: "pq' = nextStates env bs best (currentNode h) ?v rest" "vis' = ?vis'"
                using it near fresh close more by (simp_all add: iteration_Cons)
              have p: "set pq' = set rest \<union> set (nextStates env bs best (currentNode h) ?v [])"
                unfolding r(1) by (rule nextStates_set)
              have x: "\<exists>s'\<in>set pq'. \<exists>k<m. leads env bs best rt k s'"
                if "leads env bs best rt m h" for m
                using leads_not_completed[OF more that] p by auto
              have s: "set rest \<subseteq> set pq'" using p by auto
              from covered_step[OF c s hd x] e r(2) show ?thesis by blast
            qed
          qed
        qed
      qed
      have "search env bs best rt pq' vis' \<noteq> None"
        using "1.IH"[OF Continue] step by blast
      then show ?thesis using Continue by simp
    qed
  qed
qed

text \<open>A terminal state under the threshold: a terminal state of the search space, itself
  within the pruning tests, whose route takes less than the threshold.\<close>

definition terminalUnder :: "Env \<Rightarrow> string list \<Rightarrow> rat \<Rightarrow> bool \<Rightarrow> SearchState \<Rightarrow> bool" where
  "terminalUnder env bounties threshold roundTrip s \<longleftrightarrow>
     reached env bounties threshold s \<and>
     s_distance s < threshold \<and>
     v_distance (visit env bounties s) < threshold \<and>
     deliveriesCompleted (v_states (visit env bounties s)) \<and>
     r_distance (routeOf env bounties roundTrip s) < threshold"

lemma findBestRoute_sound:
  assumes "findBestRoute env bs best rt = Some r"
  shows "r_distance r < best \<and> (\<exists>s. terminalUnder env bs best rt s \<and> r = routeOf env bs rt s)"
proof -
  have "\<exists>s. reached env bs best s \<and> s_distance s < best \<and>
             v_distance (visit env bs s) < best \<and>
             deliveriesCompleted (v_states (visit env bs s)) \<and>
             r_distance r < best \<and> r = routeOf env bs rt s"
  proof (rule search_invariant[where pq="enqueue (initialState env bs) []" and vis="[]"])
    show "search env bs best rt (enqueue (initialState env bs) []) [] = Some r"
      using assms(1) by (simp add: findBestRoute_def)
    show "\<forall>s\<in>set (enqueue (initialState env bs) []). reached env bs best s"
      by (simp add: reached.start)
    show "reached env bs best s'"
      if "reached env bs best s" "s_distance s < best"
        "v_distance (visit env bs s) < best"
        "s' \<in> set (nextStates env bs best (currentNode s) (visit env bs s) [])" for s s'
      using that by (rule reached.move)
  qed
  then show ?thesis by (auto simp: terminalUnder_def)
qed

lemma leads_initial:
  "reached env bs best s \<Longrightarrow> leads env bs best rt n s \<Longrightarrow>
   \<exists>m. leads env bs best rt m (initialState env bs)"
proof (induction arbitrary: n rule: reached.induct)
  case start
  then show ?case by blast
next
  case (move s s')
  have "leads env bs best rt (Suc n) s" using move.hyps move.prems by auto
  then show ?case by (rule move.IH)
qed

lemma findBestRoute_complete:
  assumes "terminalUnder env bs best rt s"
  shows "findBestRoute env bs best rt \<noteq> None"
proof -
  have "leads env bs best rt 0 s" using assms by (simp add: terminalUnder_def)
  moreover have "reached env bs best s" using assms by (simp add: terminalUnder_def)
  ultimately obtain m where "leads env bs best rt m (initialState env bs)"
    using leads_initial by blast
  then have e: "\<exists>s\<in>set (enqueue (initialState env bs) []). \<exists>n. leads env bs best rt n s"
    by auto
  have c: "covered env bs best rt (enqueue (initialState env bs) []) []"
    by (simp add: covered_def handled_def)
  show ?thesis unfolding findBestRoute_def using search_complete[OF c e] .
qed

text \<open>No stop takes negative time; with an oracle whose times are not negative, times only
  grow along an itinerary, and a terminal state whose route is below the threshold lies in
  the search space under the threshold.\<close>

lemma sellAt_later: "v_distance v \<le> v_distance (sellAt env bs p c i v)"
  by (simp add: sellAt_def Let_def timeToSell_def)

lemma buyAt_later: "v_distance v \<le> v_distance (buyAt env bs p c i v)"
  by (simp add: buyAt_def Let_def timeToBuy_def)

lemma sellLoop_later: "v_distance v \<le> v_distance (sellLoop env bs p c v)"
proof -
  have "v_distance v \<le> v_distance (fold (sellAt env bs p c) is v)" for "is"
  proof (induction "is" arbitrary: v)
    case Nil show ?case by simp
  next
    case (Cons i "is")
    show ?case using Cons[of "sellAt env bs p c i v"] sellAt_later[of v env bs p c i] by simp
  qed
  then show ?thesis by (simp add: sellLoop_def)
qed

lemma buyLoop_later: "v_distance v \<le> v_distance (buyLoop env bs p c is v)"
proof (induction "is" arbitrary: v)
  case Nil show ?case by simp
next
  case (Cons i "is")
  show ?case using Cons[of "buyAt env bs p c i v"] buyAt_later[of v env bs p c i] by simp
qed

lemma visit_later: "s_distance s \<le> v_distance (visit env bs s)"
proof -
  let ?v = "\<lparr>v_states = bountyStates s, v_actions = actions s, v_distance = s_distance s,
             numItemsBought = 0, numItemsSold = 0\<rparr>"
  have "v_distance ?v \<le> v_distance (sellLoop env bs (previousNode s) (currentNode s) ?v)"
    by (rule sellLoop_later)
  also have "\<dots> \<le> v_distance (visit env bs s)"
    unfolding visit_def by (rule buyLoop_later)
  finally show ?thesis by simp
qed

lemma follow_later:
  assumes nn: "\<forall>a b. 0 \<le> g_distance (gps env a b)"
  shows "follow env bs s0 ns = Some s \<Longrightarrow>
         v_distance (visit env bs s0) \<le> v_distance (visit env bs s)"
proof (induction ns arbitrary: s0)
  case Nil then show ?case by simp
next
  case (Cons n ns)
  let ?s1 = "arrive env (currentNode s0) (visit env bs s0) n"
  have f: "follow env bs ?s1 ns = Some s" using Cons.prems by (simp split: if_splits)
  have "v_distance (visit env bs s0) \<le> s_distance ?s1" using nn by (simp add: arrive_def)
  also have "\<dots> \<le> v_distance (visit env bs ?s1)" by (rule visit_later)
  also have "\<dots> \<le> v_distance (visit env bs s)" using Cons.IH[OF f] .
  finally show ?case .
qed

lemma follow_reached:
  assumes nn: "\<forall>a b. 0 \<le> g_distance (gps env a b)"
  shows "reached env bs best s0 \<Longrightarrow> follow env bs s0 ns = Some s \<Longrightarrow>
         v_distance (visit env bs s) < best \<Longrightarrow>
         reached env bs best s \<and> s_distance s < best"
proof (induction ns arbitrary: s0)
  case Nil
  then show ?case using visit_later[of s env bs] by simp
next
  case (Cons n ns)
  let ?s1 = "arrive env (currentNode s0) (visit env bs s0) n"
  have d: "n \<in> set (destinations env bs (v_states (visit env bs s0)))"
    and f: "follow env bs ?s1 ns = Some s"
    using Cons.prems(2) by (simp_all split: if_splits)
  have v1: "v_distance (visit env bs ?s1) < best"
    using follow_later[OF nn f] Cons.prems(3) by simp
  then have a: "s_distance ?s1 < best" using visit_later[of ?s1 env bs] by simp
  have "v_distance (visit env bs s0) \<le> s_distance ?s1" using nn by (simp add: arrive_def)
  then have b: "v_distance (visit env bs s0) < best" using a by simp
  then have c: "s_distance s0 < best" using visit_later[of s0 env bs] by simp
  have "?s1 \<in> set (nextStates env bs best (currentNode s0) (visit env bs s0) [])"
    using d a by (auto simp: nextStates_char)
  from reached.move[OF Cons.prems(1) c b this] have "reached env bs best ?s1" .
  from Cons.IH[OF this f Cons.prems(3)] show ?case .
qed

lemma follow_snoc:
  "follow env bs s0 ns = Some s \<Longrightarrow>
   n \<in> set (destinations env bs (v_states (visit env bs s))) \<Longrightarrow>
   follow env bs s0 (ns @ [n]) = Some (arrive env (currentNode s) (visit env bs s) n)"
  by (induction ns arbitrary: s0) (auto split: if_splits)

lemma reached_follow:
  "reached env bs best s \<Longrightarrow> \<exists>ns. follow env bs (initialState env bs) ns = Some s"
proof (induction rule: reached.induct)
  case start
  have "follow env bs (initialState env bs) [] = Some (initialState env bs)" by simp
  then show ?case by blast
next
  case (move s s')
  from move.IH obtain ns where ns: "follow env bs (initialState env bs) ns = Some s" by blast
  from move.hyps(4) obtain n where n: "n \<in> set (destinations env bs (v_states (visit env bs s)))"
      "s' = arrive env (currentNode s) (visit env bs s) n"
    by (auto simp: nextStates_char)
  from follow_snoc[OF ns n(1)] n(2) show ?case by blast
qed

lemma follow_terminalUnder:
  assumes "\<forall>a b. 0 \<le> g_distance (gps env a b)"
    and "follow env bs (initialState env bs) ns = Some s"
    and "deliveriesCompleted (v_states (visit env bs s))"
    and "r_distance (routeOf env bs rt s) < best"
  shows "terminalUnder env bs best rt s"
proof -
  have "v_distance (visit env bs s) \<le> r_distance (routeOf env bs rt s)"
    using assms(1) by (simp add: routeOf_distance)
  then have v: "v_distance (visit env bs s) < best" using assms(4) by simp
  from follow_reached[OF assms(1) reached.start assms(2) v] v assms(3,4) show ?thesis
    by (simp add: terminalUnder_def)
qed

text \<open>
  C5. Whatever the bounties, the threshold and the round-trip flag: when \<^verbatim>\<open>findBestRoute\<close>
  returns a route, its total time is below the threshold (strictly, since the source
  accepts on \<^verbatim>\<open>distance < bestDistance\<close>) and it is the route of a terminal state under the
  threshold, the end of an itinerary from the first state; and it returns \<^verbatim>\<open>null\<close> exactly
  when the search space has no terminal state under the threshold. Moreover, when the
  oracle's times are not negative, any itinerary from the first state that completes every
  delivery with a route below the threshold makes \<^verbatim>\<open>findBestRoute\<close> return a route.
\<close>

theorem findBestRoute_within_threshold:
  "(\<forall>r. findBestRoute env bounties threshold roundTrip = Some r \<longrightarrow>
        r_distance r < threshold \<and>
        (\<exists>s nodes. terminalUnder env bounties threshold roundTrip s \<and>
             follow env bounties (initialState env bounties) nodes = Some s \<and>
             r = routeOf env bounties roundTrip s)) \<and>
   (findBestRoute env bounties threshold roundTrip = None \<longleftrightarrow>
      \<not> (\<exists>s. terminalUnder env bounties threshold roundTrip s)) \<and>
   ((\<forall>a b. 0 \<le> g_distance (gps env a b)) \<longrightarrow>
      (\<forall>nodes s. follow env bounties (initialState env bounties) nodes = Some s \<and>
           deliveriesCompleted (v_states (visit env bounties s)) \<and>
           r_distance (routeOf env bounties roundTrip s) < threshold \<longrightarrow>
           findBestRoute env bounties threshold roundTrip \<noteq> None))"
proof (intro conjI allI impI)
  fix r assume "findBestRoute env bounties threshold roundTrip = Some r"
  from findBestRoute_sound[OF this] obtain s where
    s: "r_distance r < threshold" "terminalUnder env bounties threshold roundTrip s"
       "r = routeOf env bounties roundTrip s"
    by blast
  from s(2) have "reached env bounties threshold s" by (simp add: terminalUnder_def)
  from reached_follow[OF this] obtain nodes where
    "follow env bounties (initialState env bounties) nodes = Some s" by blast
  with s show "r_distance r < threshold"
    and "\<exists>s nodes. terminalUnder env bounties threshold roundTrip s \<and>
             follow env bounties (initialState env bounties) nodes = Some s \<and>
             r = routeOf env bounties roundTrip s"
    by blast+
next
  show "findBestRoute env bounties threshold roundTrip = None \<longleftrightarrow>
        \<not> (\<exists>s. terminalUnder env bounties threshold roundTrip s)"
    using findBestRoute_sound[of env bounties threshold roundTrip]
          findBestRoute_complete[of env bounties threshold roundTrip]
    by (cases "findBestRoute env bounties threshold roundTrip") auto
next
  fix nodes s
  assume "\<forall>a b. 0 \<le> g_distance (gps env a b)"
    and "follow env bounties (initialState env bounties) nodes = Some s \<and>
           deliveriesCompleted (v_states (visit env bounties s)) \<and>
           r_distance (routeOf env bounties roundTrip s) < threshold"
  then have "terminalUnder env bounties threshold roundTrip s"
    using follow_terminalUnder by blast
  then show "findBestRoute env bounties threshold roundTrip \<noteq> None"
    by (rule findBestRoute_complete)
qed

section \<open>Travel steps only add teleports\<close>

fun isTeleport :: "Action \<Rightarrow> bool" where
  "isTeleport (Teleport l d) = True"
| "isTeleport _ = False"

fun isBuy :: "Action \<Rightarrow> bool" where
  "isBuy (Buy i l d) = True"
| "isBuy _ = False"

fun isSell :: "Action \<Rightarrow> bool" where
  "isSell (Sell i l d) = True"
| "isSell _ = False"

definition legTeleports :: "Env \<Rightarrow> rat \<Rightarrow> node list \<Rightarrow> Action list" where
  "legTeleports env currentDistance ps = fold (teleportStep env currentDistance) ps []"

lemma fold_teleportStep:
  "fold (teleportStep env c) ps acts = acts @ fold (teleportStep env c) ps []"
proof (induction ps arbitrary: acts)
  case Nil show ?case by simp
next
  case (Cons p ps)
  have "fold (teleportStep env c) ps (teleportStep env c p acts)
        = teleportStep env c p acts @ fold (teleportStep env c) ps []"
    by (rule Cons)
  moreover have "fold (teleportStep env c) ps (teleportStep env c p [])
        = teleportStep env c p [] @ fold (teleportStep env c) ps []"
    by (rule Cons)
  moreover have "teleportStep env c p acts = acts @ teleportStep env c p []"
    by (simp add: teleportStep_def)
  ultimately show ?case by simp
qed

lemma legTeleports_Cons:
  "legTeleports env c (p # ps) = teleportStep env c p [] @ legTeleports env c ps"
  unfolding legTeleports_def using fold_teleportStep[of env c ps "teleportStep env c p []"] by simp

lemma legTeleports_Nil [simp]: "legTeleports env c [] = []"
  by (simp add: legTeleports_def)

lemma legTeleports_all: "list_all isTeleport (legTeleports env c ps)"
  by (induction ps) (auto simp: legTeleports_Cons teleportStep_def)

definition travelSteps :: "Env \<Rightarrow> Action list \<Rightarrow> node option \<Rightarrow> node \<Rightarrow> Action list" where
  "travelSteps env acts startNode endNode =
     (let path = g_path (gps env startNode endNode) in
      if length path < 2 then []
      else legTeleports env (if acts \<noteq> [] then a_distance (last acts) else 0)
             (map ((!) path) [1..<length path - 1]))"

lemma addTravelSteps_append:
  "addTravelSteps env acts a b = acts @ travelSteps env acts a b"
proof -
  have f: "fold (\<lambda>i. teleportStep env c (path ! i)) is acts
        = acts @ legTeleports env c (map ((!) path) is)" for c path "is"
  proof -
    have "fold (\<lambda>i. teleportStep env c (path ! i)) is acts
          = fold (teleportStep env c) (map ((!) path) is) acts"
      by (simp add: fold_map comp_def)
    also have "\<dots> = acts @ fold (teleportStep env c) (map ((!) path) is) []"
      by (rule fold_teleportStep)
    finally show ?thesis by (simp add: legTeleports_def)
  qed
  show ?thesis
    by (simp add: addTravelSteps_def travelSteps_def Let_def f)
qed

lemma travelSteps_all: "list_all isTeleport (travelSteps env acts a b)"
  by (simp add: travelSteps_def Let_def legTeleports_all)

section \<open>Inventory in use along a route\<close>

definition inUse :: "Action list \<Rightarrow> int" where
  "inUse acts = 6 * (int (length (filter isBuy acts)) - int (length (filter isSell acts)))"

definition withinCapacity :: "Action list \<Rightarrow> bool" where
  "withinCapacity acts = list_all (\<lambda>k. inUse (take k acts) \<le> inventorySpace) [0..<Suc (length acts)]"

lemma withinCapacity_iff:
  "withinCapacity acts \<longleftrightarrow> (\<forall>k\<le>length acts. inUse (take k acts) \<le> inventorySpace)"
  by (auto simp: withinCapacity_def list_all_iff less_Suc_eq_le)

lemma filter_teleports [simp]:
  "list_all isTeleport ts \<Longrightarrow> filter isBuy ts = [] \<and> filter isSell ts = []"
proof (induction ts)
  case Nil show ?case by simp
next
  case (Cons a ts) then show ?case by (cases a) auto
qed

lemma inUse_teleports [simp]: "list_all isTeleport ts \<Longrightarrow> inUse (acts @ ts) = inUse acts"
  by (simp add: inUse_def)

lemma inUse_take_teleports:
  "list_all isTeleport ts \<Longrightarrow> inUse (take k (acts @ ts)) = inUse (take k acts)"
proof -
  assume t: "list_all isTeleport ts"
  have "list_all isTeleport (take (k - length acts) ts)"
    using t by (auto simp: list_all_iff dest: in_set_takeD)
  then show ?thesis by (simp add: inUse_teleports)
qed

lemma withinCapacity_teleports:
  "list_all isTeleport ts \<Longrightarrow> withinCapacity acts \<Longrightarrow> withinCapacity (acts @ ts)"
  unfolding withinCapacity_iff
proof (intro allI impI)
  fix k assume t: "list_all isTeleport ts" and w: "\<forall>k\<le>length acts. inUse (take k acts) \<le> inventorySpace"
  have "inUse (take k (acts @ ts)) = inUse (take (min k (length acts)) acts)"
    using inUse_take_teleports[OF t, of k acts] by (simp add: min_def)
  then show "inUse (take k (acts @ ts)) \<le> inventorySpace" using w by simp
qed

lemma withinCapacity_snoc:
  "withinCapacity (acts @ [a]) \<longleftrightarrow> withinCapacity acts \<and> inUse (acts @ [a]) \<le> inventorySpace"
  unfolding withinCapacity_iff
proof
  assume h: "\<forall>k\<le>length (acts @ [a]). inUse (take k (acts @ [a])) \<le> inventorySpace"
  have "inUse (take k acts) \<le> inventorySpace" if "k \<le> length acts" for k
    using h[rule_format, of k] that by simp
  moreover have "inUse (acts @ [a]) \<le> inventorySpace"
    using h[rule_format, of "Suc (length acts)"] by simp
  ultimately show "(\<forall>k\<le>length acts. inUse (take k acts) \<le> inventorySpace) \<and> inUse (acts @ [a]) \<le> inventorySpace"
    by simp
next
  assume h: "(\<forall>k\<le>length acts. inUse (take k acts) \<le> inventorySpace) \<and> inUse (acts @ [a]) \<le> inventorySpace"
  show "\<forall>k\<le>length (acts @ [a]). inUse (take k (acts @ [a])) \<le> inventorySpace"
  proof (intro allI impI)
    fix k assume "k \<le> length (acts @ [a])"
    then consider "k \<le> length acts" | "k = Suc (length acts)" by fastforce
    then show "inUse (take k (acts @ [a])) \<le> inventorySpace"
      using h by cases auto
  qed
qed

text \<open>The invariant that ties the status array to the actions recorded so far.\<close>

definition loadInv :: "BountyStatus list \<Rightarrow> Action list \<Rightarrow> bool" where
  "loadInv sts acts \<longleftrightarrow>
     withinCapacity acts \<and> inUse acts = 6 * int (count_list sts IN_PROGRESS)"

lemma sellAt_loadInv:
  assumes "loadInv (v_states v) (v_actions v)"
  shows "loadInv (v_states (sellAt env bs p c i v)) (v_actions (sellAt env bs p c i v))"
proof (cases "c = m_node (buyer (bountyData env (bs ! i))) \<and> i < length (v_states v) \<and> v_states v ! i = IN_PROGRESS")
  case False
  then show ?thesis using assms by (auto simp: sellAt_def Let_def)
next
  case True
  define ts where "ts = (if numItemsBought v + numItemsSold v = 0 then travelSteps env (v_actions v) p c else [])"
  have ts: "list_all isTeleport ts" by (simp add: ts_def travelSteps_all)
  have acts: "v_actions (sellAt env bs p c i v)
      = (v_actions v @ ts) @ [Sell (bs ! i) (m_name (buyer (bountyData env (bs ! i)))) (v_distance v + timeToSell)]"
    using True by (simp add: sellAt_def Let_def ts_def addTravelSteps_append)
  have sts: "v_states (sellAt env bs p c i v) = (v_states v)[i := COMPLETED]"
    using True by (simp add: sellAt_def Let_def)
  have cnt: "count_list ((v_states v)[i := COMPLETED]) IN_PROGRESS + 1 = count_list (v_states v) IN_PROGRESS"
    using count_list_update[of i "v_states v" COMPLETED IN_PROGRESS] True by simp
  have u: "inUse (v_actions (sellAt env bs p c i v)) = inUse (v_actions v) - 6"
    unfolding acts using ts by (simp add: inUse_def)
  have "withinCapacity (v_actions v @ ts)"
    using assms ts by (simp add: loadInv_def withinCapacity_teleports)
  moreover have "inUse (v_actions v) \<le> inventorySpace"
    using assms by (auto simp: loadInv_def withinCapacity_iff dest: spec[of _ "length (v_actions v)"])
  ultimately have "withinCapacity (v_actions (sellAt env bs p c i v))"
    using u unfolding acts withinCapacity_snoc[of "v_actions v @ ts"] by (simp add: acts[symmetric])
  then show ?thesis using u cnt assms by (simp add: loadInv_def sts)
qed

lemma buyAt_loadInv:
  assumes "loadInv (v_states v) (v_actions v)" "canPurchaseMoreItems (v_states v)"
  shows "loadInv (v_states (buyAt env bs p c i v)) (v_actions (buyAt env bs p c i v))"
proof (cases "c = m_node (seller (bountyData env (bs ! i))) \<and> i < length (v_states v) \<and> v_states v ! i = NOT_STARTED")
  case False
  then show ?thesis using assms by (auto simp: buyAt_def Let_def)
next
  case True
  define ts where "ts = (if numItemsBought v + numItemsSold v = 0 then travelSteps env (v_actions v) p c else [])"
  define d where "d = (if numItemsBought v = 0 then v_distance v + timeToBuy else v_distance v)"
  have ts: "list_all isTeleport ts" by (simp add: ts_def travelSteps_all)
  have acts: "v_actions (buyAt env bs p c i v)
      = (v_actions v @ ts) @ [Buy (bs ! i) (m_name (seller (bountyData env (bs ! i)))) d]"
    using True by (simp add: buyAt_def Let_def ts_def d_def addTravelSteps_append)
  have sts: "v_states (buyAt env bs p c i v) = (v_states v)[i := IN_PROGRESS]"
    using True by (simp add: buyAt_def Let_def)
  have cnt: "count_list ((v_states v)[i := IN_PROGRESS]) IN_PROGRESS = count_list (v_states v) IN_PROGRESS + 1"
    using count_list_update[of i "v_states v" IN_PROGRESS IN_PROGRESS] True by simp
  have u: "inUse (v_actions (buyAt env bs p c i v)) = inUse (v_actions v) + 6"
    unfolding acts using ts by (simp add: inUse_def)
  have "withinCapacity (v_actions v @ ts)"
    using assms ts by (simp add: loadInv_def withinCapacity_teleports)
  moreover have "inUse (v_actions v) + 6 \<le> inventorySpace"
    using assms by (simp add: loadInv_def canPurchase_count inventorySpace_def)
  ultimately have "withinCapacity (v_actions (buyAt env bs p c i v))"
    using u unfolding acts withinCapacity_snoc[of "v_actions v @ ts"] by (simp add: acts[symmetric])
  then show ?thesis using u cnt assms by (simp add: loadInv_def sts)
qed

lemma sellLoop_fold_loadInv:
  "loadInv (v_states v) (v_actions v) \<Longrightarrow>
   loadInv (v_states (fold (sellAt env bs p c) is v)) (v_actions (fold (sellAt env bs p c) is v))"
  by (induction "is" arbitrary: v) (simp_all add: sellAt_loadInv)

lemma buyLoop_loadInv:
  "loadInv (v_states v) (v_actions v) \<Longrightarrow>
   loadInv (v_states (buyLoop env bs p c is v)) (v_actions (buyLoop env bs p c is v))"
  by (induction "is" arbitrary: v) (simp_all add: buyAt_loadInv)

lemma visit_loadInv:
  "loadInv (bountyStates s) (actions s) \<Longrightarrow>
   loadInv (v_states (visit env bs s)) (v_actions (visit env bs s))"
  unfolding visit_def sellLoop_def
  by (intro buyLoop_loadInv sellLoop_fold_loadInv) simp


lemma nextStates_fields:
  assumes "s' \<in> set (nextStates env bs best cur v [])"
  shows "bountyStates s' = v_states v \<and> actions s' = v_actions v \<and> previousNode s' = Some cur \<and>
         s_distance s' = v_distance v + g_distance (gps env (Some cur) (currentNode s'))"
  using assms nextStates_subset[of env bs best cur v "[]"]
  by (auto simp: successors_def)

lemma routeOf_actions:
  "r_actions (routeOf env bs rt s) = v_actions (visit env bs s) \<or>
   (\<exists>l d. r_actions (routeOf env bs rt s)
      = (v_actions (visit env bs s)
         @ travelSteps env (v_actions (visit env bs s)) (Some (currentNode s)) (m_node (bountyBoard env)))
        @ [Return l d])"
  by (auto simp: routeOf_def Let_def addTravelSteps_append)

lemma inUse_Return [simp]: "inUse (acts @ [Return l d]) = inUse acts"
  by (simp add: inUse_def)

lemma findBestRoute_withinCapacity:
  assumes "findBestRoute env bs best rt = Some r"
  shows "withinCapacity (r_actions r)"
proof -
  let ?I = "\<lambda>s. loadInv (bountyStates s) (actions s)"
  have i: "?I (initialState env bs)"
    by (simp add: initialState_def loadInv_def withinCapacity_def inUse_def inventorySpace_def)
  have st: "?I s'" if "reached env bs best s" "?I s"
    "s' \<in> set (nextStates env bs best (currentNode s) (visit env bs s) [])" for s s'
    using nextStates_fields[OF that(3)] visit_loadInv[OF that(2), of env bs] by simp
  have "\<exists>s. reached env bs best s \<and> ?I s \<and> deliveriesCompleted (v_states (visit env bs s)) \<and>
             r_distance r < best \<and> r = routeOf env bs rt s"
    using assms i st by (rule findBestRoute_invariant)
  then obtain s where s: "?I s" "r = routeOf env bs rt s" by blast
  let ?v = "visit env bs s"
  have w: "withinCapacity (v_actions ?v)"
    using visit_loadInv[OF s(1), of env bs] by (simp add: loadInv_def)
  have u: "inUse (v_actions ?v) \<le> inventorySpace"
    using w by (auto simp: withinCapacity_iff dest: spec[of _ "length (v_actions ?v)"])
  have x: "withinCapacity ((v_actions ?v @ ts) @ [Return l d])" if "list_all isTeleport ts" for ts l d
  proof -
    have "inUse ((v_actions ?v @ ts) @ [Return l d]) = inUse (v_actions ?v)"
      by (simp only: inUse_Return inUse_teleports[OF that])
    moreover have "withinCapacity (v_actions ?v @ ts)"
      using w that by (rule withinCapacity_teleports[rotated])
    ultimately show ?thesis unfolding withinCapacity_snoc using u by simp
  qed
  from routeOf_actions[of env bs rt s] show ?thesis
  proof
    assume "r_actions (routeOf env bs rt s) = v_actions ?v"
    then show ?thesis using w s(2) by simp
  next
    assume "\<exists>l d. r_actions (routeOf env bs rt s)
      = (v_actions ?v @ travelSteps env (v_actions ?v) (Some (currentNode s)) (m_node (bountyBoard env)))
        @ [Return l d]"
    then obtain l d where "r_actions (routeOf env bs rt s)
      = (v_actions ?v @ travelSteps env (v_actions ?v) (Some (currentNode s)) (m_node (bountyBoard env)))
        @ [Return l d]" by blast
    then show ?thesis using x[OF travelSteps_all] s(2) by simp
  qed
qed

text \<open>
  C6. Along every route \<^verbatim>\<open>findBestRoute\<close> returns, the inventory in use (6 for every item
  bought and not yet sold) never exceeds the inventory space of 24, whatever prefix of the
  actions has been carried out; and a buy happens only where 6 units are still free.
\<close>

theorem findBestRoute_capacity:
  assumes "findBestRoute env bounties threshold roundTrip = Some r"
    and "k \<le> length (r_actions r)"
  shows "inUse (take k (r_actions r)) \<le> inventorySpace \<and>
         (k < length (r_actions r) \<and> isBuy (r_actions r ! k)
            \<longrightarrow> inUse (take k (r_actions r)) + 6 \<le> inventorySpace)"
proof -
  have w: "\<forall>j\<le>length (r_actions r). inUse (take j (r_actions r)) \<le> inventorySpace"
    using findBestRoute_withinCapacity[OF assms(1)] by (simp add: withinCapacity_iff)
  have "inUse (take k (r_actions r)) + 6 \<le> inventorySpace"
    if "k < length (r_actions r)" "isBuy (r_actions r ! k)"
  proof -
    have "\<not> isSell (r_actions r ! k)" using that(2) by (cases "r_actions r ! k") simp_all
    then have "inUse (take (Suc k) (r_actions r)) = inUse (take k (r_actions r)) + 6"
      using that by (simp add: take_Suc_conv_app_nth inUse_def)
    moreover have "inUse (take (Suc k) (r_actions r)) \<le> inventorySpace"
      using w that(1) by (simp add: Suc_leI)
    ultimately show ?thesis by simp
  qed
  then show ?thesis using w assms(2) by blast
qed

section \<open>Every item is bought once and then sold once\<close>

fun buysItem :: "string \<Rightarrow> Action \<Rightarrow> bool" where
  "buysItem b (Buy i l d) = (i = b)"
| "buysItem b _ = False"

fun sellsItem :: "string \<Rightarrow> Action \<Rightarrow> bool" where
  "sellsItem b (Sell i l d) = (i = b)"
| "sellsItem b _ = False"

definition bought :: "string \<Rightarrow> Action list \<Rightarrow> nat" where
  "bought b acts = length (filter (buysItem b) acts)"

definition sold :: "string \<Rightarrow> Action list \<Rightarrow> nat" where
  "sold b acts = length (filter (sellsItem b) acts)"

text \<open>How many entries of the subset named \<open>b\<close> have left a status behind.\<close>

definition started :: "string list \<Rightarrow> BountyStatus list \<Rightarrow> string \<Rightarrow> nat" where
  "started bs sts b = length (filter (\<lambda>(x, st). x = b \<and> st \<noteq> NOT_STARTED) (zip bs sts))"

definition delivered :: "string list \<Rightarrow> BountyStatus list \<Rightarrow> string \<Rightarrow> nat" where
  "delivered bs sts b = length (filter (\<lambda>(x, st). x = b \<and> st = COMPLETED) (zip bs sts))"

definition deliveryInv :: "string list \<Rightarrow> BountyStatus list \<Rightarrow> Action list \<Rightarrow> bool" where
  "deliveryInv bs sts acts \<longleftrightarrow>
     length sts = length bs \<and>
     (\<forall>b. bought b acts = started bs sts b \<and> sold b acts = delivered bs sts b) \<and>
     (\<forall>k b. sold b (take k acts) \<le> bought b (take k acts))"

lemma filter_length_update:
  assumes "i < length xs"
  shows "length (filter P (xs[i := y])) + (if P (xs ! i) then 1 else 0)
         = length (filter P xs) + (if P y then 1 else 0)"
  using assms
proof (induction xs arbitrary: i)
  case Nil then show ?case by simp
next
  case (Cons a xs)
  then show ?case by (cases i) (force split: if_splits)+
qed

lemma zip_update_right:
  "zip bs (sts[i := x]) = (zip bs sts)[i := (bs ! i, x)]"
proof (induction bs arbitrary: sts i)
  case Nil show ?case by simp
next
  case (Cons b bs)
  show ?case
  proof (cases sts)
    case Nil then show ?thesis by simp
  next
    case (Cons st sts')
    then show ?thesis using Cons.IH[of sts'] by (cases i) simp_all
  qed
qed

lemma delivered_le_started: "delivered bs sts b \<le> started bs sts b"
proof -
  have "length (filter (\<lambda>(x, st). x = b \<and> st = COMPLETED) xs)
        \<le> length (filter (\<lambda>(x, st). x = b \<and> st \<noteq> NOT_STARTED) xs)" for xs :: "(string \<times> BountyStatus) list"
    by (induction xs) auto
  then show ?thesis by (simp add: started_def delivered_def)
qed

lemma started_update:
  assumes "i < length sts" "length sts = length bs"
  shows "started bs (sts[i := x]) b + (if bs ! i = b \<and> sts ! i \<noteq> NOT_STARTED then 1 else 0)
         = started bs sts b + (if bs ! i = b \<and> x \<noteq> NOT_STARTED then 1 else 0)"
  using filter_length_update[of i "zip bs sts" "\<lambda>(x, st). x = b \<and> st \<noteq> NOT_STARTED" "(bs ! i, x)"] assms
  by (simp add: started_def zip_update_right)

lemma delivered_update:
  assumes "i < length sts" "length sts = length bs"
  shows "delivered bs (sts[i := x]) b + (if bs ! i = b \<and> sts ! i = COMPLETED then 1 else 0)
         = delivered bs sts b + (if bs ! i = b \<and> x = COMPLETED then 1 else 0)"
  using filter_length_update[of i "zip bs sts" "\<lambda>(x, st). x = b \<and> st = COMPLETED" "(bs ! i, x)"] assms
  by (simp add: delivered_def zip_update_right)

lemma teleports_no_trade:
  "list_all isTeleport ts \<Longrightarrow> filter (buysItem b) ts = [] \<and> filter (sellsItem b) ts = []"
proof (induction ts)
  case Nil show ?case by simp
next
  case (Cons a ts) then show ?case by (cases a) auto
qed

lemma bought_teleports: "list_all isTeleport ts \<Longrightarrow> bought b (take k (acts @ ts)) = bought b (take k acts)"
proof -
  assume t: "list_all isTeleport ts"
  have "list_all isTeleport (take (k - length acts) ts)"
    using t by (auto simp: list_all_iff dest: in_set_takeD)
  then show ?thesis by (simp add: bought_def teleports_no_trade)
qed

lemma sold_teleports: "list_all isTeleport ts \<Longrightarrow> sold b (take k (acts @ ts)) = sold b (take k acts)"
proof -
  assume t: "list_all isTeleport ts"
  have "list_all isTeleport (take (k - length acts) ts)"
    using t by (auto simp: list_all_iff dest: in_set_takeD)
  then show ?thesis by (simp add: sold_def teleports_no_trade)
qed

lemma take_snoc_cases:
  "take k (acts @ [a]) = take k acts \<or> take k (acts @ [a]) = acts @ [a]"
  by (cases "k \<le> length acts") auto

text \<open>Appending teleports and one more action keeps the order of buys and sells, as long
  as the whole list still has no more sales than purchases.\<close>

lemma ordered_extend:
  assumes "\<forall>k b. sold b (take k acts) \<le> bought b (take k acts)"
    and "list_all isTeleport ts"
    and "\<forall>b. sold b (acts @ ts @ [a]) \<le> bought b (acts @ ts @ [a])"
  shows "\<forall>k b. sold b (take k (acts @ ts @ [a])) \<le> bought b (take k (acts @ ts @ [a]))"
proof (intro allI)
  fix k b
  from take_snoc_cases[of k "acts @ ts" a, unfolded append_assoc]
  show "sold b (take k (acts @ ts @ [a])) \<le> bought b (take k (acts @ ts @ [a]))"
  proof
    assume e: "take k (acts @ ts @ [a]) = take k (acts @ ts)"
    show ?thesis unfolding e using assms(1,2) by (simp only: bought_teleports sold_teleports)
  next
    assume e: "take k (acts @ ts @ [a]) = acts @ ts @ [a]"
    show ?thesis unfolding e using assms(3) by blast
  qed
qed

lemma whole_teleports:
  assumes "list_all isTeleport ts"
  shows "bought b (acts @ ts) = bought b acts" "sold b (acts @ ts) = sold b acts"
  using assms by (simp_all add: bought_def sold_def teleports_no_trade)

lemma sellAt_deliveryInv:
  assumes "deliveryInv bs (v_states v) (v_actions v)"
  shows "deliveryInv bs (v_states (sellAt env bs p c i v)) (v_actions (sellAt env bs p c i v))"
proof (cases "c = m_node (buyer (bountyData env (bs ! i))) \<and> i < length (v_states v) \<and> v_states v ! i = IN_PROGRESS")
  case False
  then show ?thesis using assms by (auto simp: sellAt_def Let_def)
next
  case True
  define ts where "ts = (if numItemsBought v + numItemsSold v = 0 then travelSteps env (v_actions v) p c else [])"
  define a where "a = Sell (bs ! i) (m_name (buyer (bountyData env (bs ! i)))) (v_distance v + timeToSell)"
  have ts: "list_all isTeleport ts" by (simp add: ts_def travelSteps_all)
  have acts: "v_actions (sellAt env bs p c i v) = v_actions v @ ts @ [a]"
    using True by (simp add: sellAt_def Let_def ts_def a_def addTravelSteps_append)
  have sts: "v_states (sellAt env bs p c i v) = (v_states v)[i := COMPLETED]"
    using True by (simp add: sellAt_def Let_def)
  have len: "length (v_states v) = length bs" using assms by (simp add: deliveryInv_def)
  have st: "started bs ((v_states v)[i := COMPLETED]) b = started bs (v_states v) b" for b
    using started_update[of i "v_states v" bs COMPLETED b] True len by simp
  have dl: "delivered bs ((v_states v)[i := COMPLETED]) b
            = delivered bs (v_states v) b + (if bs ! i = b then 1 else 0)" for b
    using delivered_update[of i "v_states v" bs COMPLETED b] True len by simp
  have b': "bought b (v_actions v @ ts @ [a]) = bought b (v_actions v)" for b
    using whole_teleports(1)[OF ts, of b "v_actions v"] by (simp add: bought_def a_def)
  have s': "sold b (v_actions v @ ts @ [a]) = sold b (v_actions v) + (if bs ! i = b then 1 else 0)" for b
    using whole_teleports(2)[OF ts, of b "v_actions v"] by (simp add: sold_def a_def)
  have counts: "bought b (v_actions v @ ts @ [a]) = started bs ((v_states v)[i := COMPLETED]) b \<and>
                sold b (v_actions v @ ts @ [a]) = delivered bs ((v_states v)[i := COMPLETED]) b" for b
    using assms by (simp add: deliveryInv_def b' s' st dl)
  have "\<forall>b. sold b (v_actions v @ ts @ [a]) \<le> bought b (v_actions v @ ts @ [a])"
    using counts delivered_le_started by simp
  then have "\<forall>k b. sold b (take k (v_actions v @ ts @ [a])) \<le> bought b (take k (v_actions v @ ts @ [a]))"
    using assms ts by (intro ordered_extend) (simp_all add: deliveryInv_def)
  then show ?thesis using counts len unfolding deliveryInv_def acts sts by simp
qed

lemma buyAt_deliveryInv:
  assumes "deliveryInv bs (v_states v) (v_actions v)"
  shows "deliveryInv bs (v_states (buyAt env bs p c i v)) (v_actions (buyAt env bs p c i v))"
proof (cases "c = m_node (seller (bountyData env (bs ! i))) \<and> i < length (v_states v) \<and> v_states v ! i = NOT_STARTED")
  case False
  then show ?thesis using assms by (auto simp: buyAt_def Let_def)
next
  case True
  define ts where "ts = (if numItemsBought v + numItemsSold v = 0 then travelSteps env (v_actions v) p c else [])"
  define a where "a = Buy (bs ! i) (m_name (seller (bountyData env (bs ! i))))
                        (if numItemsBought v = 0 then v_distance v + timeToBuy else v_distance v)"
  have ts: "list_all isTeleport ts" by (simp add: ts_def travelSteps_all)
  have acts: "v_actions (buyAt env bs p c i v) = v_actions v @ ts @ [a]"
    using True by (simp add: buyAt_def Let_def ts_def a_def addTravelSteps_append)
  have sts: "v_states (buyAt env bs p c i v) = (v_states v)[i := IN_PROGRESS]"
    using True by (simp add: buyAt_def Let_def)
  have len: "length (v_states v) = length bs" using assms by (simp add: deliveryInv_def)
  have st: "started bs ((v_states v)[i := IN_PROGRESS]) b
            = started bs (v_states v) b + (if bs ! i = b then 1 else 0)" for b
    using started_update[of i "v_states v" bs IN_PROGRESS b] True len by simp
  have dl: "delivered bs ((v_states v)[i := IN_PROGRESS]) b = delivered bs (v_states v) b" for b
    using delivered_update[of i "v_states v" bs IN_PROGRESS b] True len by simp
  have b': "bought b (v_actions v @ ts @ [a]) = bought b (v_actions v) + (if bs ! i = b then 1 else 0)" for b
    using whole_teleports(1)[OF ts, of b "v_actions v"] by (simp add: bought_def a_def)
  have s': "sold b (v_actions v @ ts @ [a]) = sold b (v_actions v)" for b
    using whole_teleports(2)[OF ts, of b "v_actions v"] by (simp add: sold_def a_def)
  have counts: "bought b (v_actions v @ ts @ [a]) = started bs ((v_states v)[i := IN_PROGRESS]) b \<and>
                sold b (v_actions v @ ts @ [a]) = delivered bs ((v_states v)[i := IN_PROGRESS]) b" for b
    using assms by (simp add: deliveryInv_def b' s' st dl)
  have "\<forall>b. sold b (v_actions v @ ts @ [a]) \<le> bought b (v_actions v @ ts @ [a])"
    using counts delivered_le_started by simp
  then have "\<forall>k b. sold b (take k (v_actions v @ ts @ [a])) \<le> bought b (take k (v_actions v @ ts @ [a]))"
    using assms ts by (intro ordered_extend) (simp_all add: deliveryInv_def)
  then show ?thesis using counts len unfolding deliveryInv_def acts sts by simp
qed

lemma sellLoop_fold_deliveryInv:
  "deliveryInv bs (v_states v) (v_actions v) \<Longrightarrow>
   deliveryInv bs (v_states (fold (sellAt env bs p c) is v)) (v_actions (fold (sellAt env bs p c) is v))"
  by (induction "is" arbitrary: v) (simp_all add: sellAt_deliveryInv)

lemma buyLoop_deliveryInv:
  "deliveryInv bs (v_states v) (v_actions v) \<Longrightarrow>
   deliveryInv bs (v_states (buyLoop env bs p c is v)) (v_actions (buyLoop env bs p c is v))"
  by (induction "is" arbitrary: v) (simp_all add: buyAt_deliveryInv)

lemma visit_deliveryInv:
  "deliveryInv bs (bountyStates s) (actions s) \<Longrightarrow>
   deliveryInv bs (v_states (visit env bs s)) (v_actions (visit env bs s))"
  unfolding visit_def sellLoop_def
  by (intro buyLoop_deliveryInv sellLoop_fold_deliveryInv) simp

lemma completed_counts:
  assumes "deliveriesCompleted sts" "length sts = length bs"
  shows "started bs sts b = count_list bs b \<and> delivered bs sts b = count_list bs b"
  using assms
proof (induction bs arbitrary: sts)
  case Nil then show ?case by (simp add: started_def delivered_def)
next
  case (Cons x bs)
  then obtain st sts' where s: "sts = st # sts'" by (cases sts) auto
  have "deliveriesCompleted sts'" "length sts' = length bs" "st = COMPLETED"
    using Cons.prems s by (simp_all add: deliveriesCompleted_def)
  then show ?case using Cons.IH[of sts'] s
    by (simp add: started_def delivered_def)
qed

lemma initial_deliveryInv: "deliveryInv bs (replicate (length bs) NOT_STARTED) []"
proof -
  have "filter (\<lambda>(x, st). P x st \<and> st \<noteq> NOT_STARTED) (zip bs (replicate n NOT_STARTED)) = []" for P n
    by (auto simp: filter_empty_conv dest: set_zip_rightD)
  moreover have "filter (\<lambda>(x, st). P x st \<and> st = COMPLETED) (zip bs (replicate n NOT_STARTED)) = []" for P n
    by (auto simp: filter_empty_conv dest: set_zip_rightD)
  ultimately show ?thesis
    by (simp add: deliveryInv_def bought_def sold_def started_def delivered_def)
qed


lemma findBestRoute_deliveryInv:
  assumes "findBestRoute env bs best rt = Some r"
  shows "deliveryInv bs (replicate (length bs) COMPLETED) (r_actions r)"
proof -
  let ?I = "\<lambda>s. deliveryInv bs (bountyStates s) (actions s)"
  have i: "?I (initialState env bs)"
    by (simp add: initialState_def initial_deliveryInv)
  have st: "?I s'" if "reached env bs best s" "?I s"
    "s' \<in> set (nextStates env bs best (currentNode s) (visit env bs s) [])" for s s'
    using nextStates_fields[OF that(3)] visit_deliveryInv[OF that(2), of env] by simp
  have "\<exists>s. reached env bs best s \<and> ?I s \<and> deliveriesCompleted (v_states (visit env bs s)) \<and>
             r_distance r < best \<and> r = routeOf env bs rt s"
    using assms i st by (rule findBestRoute_invariant)
  then obtain s where s: "?I s" "deliveriesCompleted (v_states (visit env bs s))"
    "r = routeOf env bs rt s" by blast
  let ?v = "visit env bs s"
  have inv: "deliveryInv bs (v_states ?v) (v_actions ?v)"
    using visit_deliveryInv[OF s(1), of env] .
  have len: "length (v_states ?v) = length bs" using inv by (simp add: deliveryInv_def)
  have all: "v_states ?v = replicate (length bs) COMPLETED"
    using s(2) len by (auto simp: deliveriesCompleted_def list_all_iff intro!: replicate_eqI)
  have x: "deliveryInv bs (v_states ?v) (v_actions ?v @ ts @ [Return l d])"
    if ts: "list_all isTeleport ts" for ts l d
  proof -
    have b': "bought b (v_actions ?v @ ts @ [Return l d]) = bought b (v_actions ?v)" for b
      using whole_teleports(1)[OF ts, of b "v_actions ?v"] by (simp add: bought_def)
    have s': "sold b (v_actions ?v @ ts @ [Return l d]) = sold b (v_actions ?v)" for b
      using whole_teleports(2)[OF ts, of b "v_actions ?v"] by (simp add: sold_def)
    have "\<forall>b. sold b (v_actions ?v @ ts @ [Return l d]) \<le> bought b (v_actions ?v @ ts @ [Return l d])"
      using inv delivered_le_started by (simp add: deliveryInv_def b' s')
    then have "\<forall>k b. sold b (take k (v_actions ?v @ ts @ [Return l d]))
                 \<le> bought b (take k (v_actions ?v @ ts @ [Return l d]))"
      using inv ts by (intro ordered_extend) (simp_all add: deliveryInv_def)
    then show ?thesis using inv unfolding deliveryInv_def by (simp add: b' s')
  qed
  from routeOf_actions[of env bs rt s] show ?thesis
  proof
    assume "r_actions (routeOf env bs rt s) = v_actions ?v"
    then show ?thesis using inv s(3) all by simp
  next
    assume "\<exists>l d. r_actions (routeOf env bs rt s)
      = (v_actions ?v @ travelSteps env (v_actions ?v) (Some (currentNode s)) (m_node (bountyBoard env)))
        @ [Return l d]"
    then obtain l d where "r_actions (routeOf env bs rt s)
      = v_actions ?v @ travelSteps env (v_actions ?v) (Some (currentNode s)) (m_node (bountyBoard env))
        @ [Return l d]" by auto
    then show ?thesis using x[OF travelSteps_all] s(3) all by simp
  qed
qed

text \<open>
  C10. A returned route buys and sells every bounty of the subset exactly once: for every
  item name \<open>b\<close> the route has as many buy actions for \<open>b\<close> as the subset has entries
  \<open>b\<close>, and as many sell actions; and at no point of the route have more of \<open>b\<close> been sold
  than bought, so each sale comes after its purchase. (Actions carry the item name, not
  the index of the entry: entries of the same name are told apart by counting.)
\<close>

theorem findBestRoute_buys_then_sells:
  assumes "findBestRoute env bounties threshold roundTrip = Some r"
  shows "bought b (r_actions r) = count_list bounties b \<and>
         sold b (r_actions r) = count_list bounties b \<and>
         sold b (take k (r_actions r)) \<le> bought b (take k (r_actions r))"
proof -
  have inv: "deliveryInv bounties (replicate (length bounties) COMPLETED) (r_actions r)"
    using assms by (rule findBestRoute_deliveryInv)
  have "deliveriesCompleted (replicate (length bounties) COMPLETED)"
    by (simp add: deliveriesCompleted_def list_all_iff)
  then have "started bounties (replicate (length bounties) COMPLETED) b = count_list bounties b \<and>
        delivered bounties (replicate (length bounties) COMPLETED) b = count_list bounties b"
    by (intro completed_counts) simp_all
  then show ?thesis using inv by (simp add: deliveryInv_def)
qed

section \<open>Recorded times along a route\<close>

text \<open>
  The time of the last action of a list, 0 for the empty list: the expression
  \<^verbatim>\<open>#addTravelSteps\<close> reads before it adds teleport steps.
\<close>

definition lastDist :: "Action list \<Rightarrow> rat" where
  "lastDist acts = (if acts \<noteq> [] then a_distance (last acts) else 0)"

definition chronological :: "Action list \<Rightarrow> bool" where
  "chronological acts = sorted (map a_distance acts)"

text \<open>
  Every teleport step carries the time of the action before it (\<open>prev\<close>, 0 before the
  first action) plus the teleport time of the portal it names.
\<close>

fun stamped :: "Env \<Rightarrow> rat \<Rightarrow> Action list \<Rightarrow> bool" where
  "stamped env prev [] = True"
| "stamped env prev (a # as) =
     ((isTeleport a \<longrightarrow>
         (a_location a = p_name (CRENOPOLIS_MARKET env) \<and>
          a_distance a = prev + teleportTime (CRENOPOLIS_MARKET env)) \<or>
         (a_location a = p_name (CRENOPOLIS_OUTSKIRTS env) \<and>
          a_distance a = prev + teleportTime (CRENOPOLIS_OUTSKIRTS env)))
      \<and> stamped env (a_distance a) as)"

definition timeline :: "Env \<Rightarrow> Action list \<Rightarrow> bool" where
  "timeline env acts \<longleftrightarrow> chronological acts \<and> stamped env 0 acts"

text \<open>What is asked of the distance oracle and the portals.\<close>

definition isPortalNode :: "Env \<Rightarrow> node \<Rightarrow> bool" where
  "isPortalNode env p \<longleftrightarrow>
     p = p_node (CRENOPOLIS_MARKET env) \<or> p = p_node (CRENOPOLIS_OUTSKIRTS env)"

definition portalTime :: "Env \<Rightarrow> node \<Rightarrow> rat" where
  "portalTime env p =
     (if p = p_node (CRENOPOLIS_MARKET env) then teleportTime (CRENOPOLIS_MARKET env)
      else teleportTime (CRENOPOLIS_OUTSKIRTS env))"

definition innerNodes :: "node list \<Rightarrow> node list" where
  "innerNodes path = map ((!) path) [1..<length path - 1]"

definition legTime :: "Env \<Rightarrow> node option \<Rightarrow> node \<Rightarrow> rat" where
  "legTime env a b = (case a of None \<Rightarrow> 0 | Some x \<Rightarrow> g_distance (gps env a b))"

definition legPortals :: "Env \<Rightarrow> node option \<Rightarrow> node \<Rightarrow> node list" where
  "legPortals env a b = filter (isPortalNode env) (innerNodes (g_path (gps env a b)))"

definition oracleOK :: "Env \<Rightarrow> bool" where
  "oracleOK env \<longleftrightarrow>
     (\<forall>a b. 0 \<le> g_distance (gps env a b) \<and>
            length (legPortals env a b) \<le> 1 \<and>
            (\<forall>p \<in> set (legPortals env a b).
                0 \<le> portalTime env p \<and> portalTime env p \<le> legTime env a b))"


lemma sorted_last_le:
  "sorted xs \<Longrightarrow> x \<in> set xs \<Longrightarrow> x \<le> last xs"
  by (induction xs) (auto simp: )

lemma chronological_snoc:
  "chronological (acts @ [a]) \<longleftrightarrow>
     chronological acts \<and> (acts \<noteq> [] \<longrightarrow> a_distance (last acts) \<le> a_distance a)"
proof (cases "acts = []")
  case True then show ?thesis by (simp add: chronological_def)
next
  case False
  have l: "last (map a_distance acts) = a_distance (last acts)" using False by (simp add: last_map)
  show ?thesis
  proof
    assume "chronological (acts @ [a])"
    then show "chronological acts \<and> (acts \<noteq> [] \<longrightarrow> a_distance (last acts) \<le> a_distance a)"
      using False by (auto simp: chronological_def sorted_append)
  next
    assume h: "chronological acts \<and> (acts \<noteq> [] \<longrightarrow> a_distance (last acts) \<le> a_distance a)"
    have "x \<le> a_distance a" if "x \<in> set (map a_distance acts)" for x
      using sorted_last_le[of "map a_distance acts" x] that h l False
      by (simp add: chronological_def)
    then show "chronological (acts @ [a])" using h
      by (auto simp: chronological_def sorted_append)
  qed
qed

lemma stamped_append:
  "stamped env prev (xs @ ys) \<longleftrightarrow>
     stamped env prev xs \<and> stamped env (if xs = [] then prev else a_distance (last xs)) ys"
  by (induction xs arbitrary: prev) auto

lemma timeline_snoc:
  "timeline env (acts @ [a]) \<longleftrightarrow>
     timeline env acts \<and> (acts \<noteq> [] \<longrightarrow> a_distance (last acts) \<le> a_distance a) \<and>
     (isTeleport a \<longrightarrow>
         (a_location a = p_name (CRENOPOLIS_MARKET env) \<and>
          a_distance a = lastDist acts + teleportTime (CRENOPOLIS_MARKET env)) \<or>
         (a_location a = p_name (CRENOPOLIS_OUTSKIRTS env) \<and>
          a_distance a = lastDist acts + teleportTime (CRENOPOLIS_OUTSKIRTS env)))"
  by (auto simp: timeline_def chronological_snoc stamped_append lastDist_def)

lemma legTeleports_filter:
  "legTeleports env c ps = legTeleports env c (filter (isPortalNode env) ps)"
proof (induction ps)
  case Nil show ?case by simp
next
  case (Cons p ps)
  show ?case
  proof (cases "isPortalNode env p")
    case True then show ?thesis using Cons by (simp add: legTeleports_Cons)
  next
    case False
    then have "teleportStep env c p [] = []" by (simp add: teleportStep_def isPortalNode_def)
    then show ?thesis using Cons False by (simp add: legTeleports_Cons)
  qed
qed

lemma travelSteps_legPortals:
  "travelSteps env acts a b = legTeleports env (lastDist acts) (legPortals env a b)"
proof (cases "length (g_path (gps env a b)) < 2")
  case True
  then have "innerNodes (g_path (gps env a b)) = []" by (simp add: innerNodes_def)
  then show ?thesis using True by (simp add: travelSteps_def legPortals_def)
next
  case False
  then show ?thesis
    using legTeleports_filter[of env "lastDist acts" "innerNodes (g_path (gps env a b))"]
    by (simp add: travelSteps_def Let_def legPortals_def innerNodes_def lastDist_def)
qed

text \<open>With a well-behaved oracle a leg adds no step, or one teleport within the leg's time.\<close>

lemma travelSteps_cases:
  assumes "oracleOK env"
  shows "travelSteps env acts a b = [] \<or>
         (\<exists>l t. travelSteps env acts a b = [Teleport l (lastDist acts + t)] \<and>
                0 \<le> t \<and> t \<le> legTime env a b \<and>
                ((l = p_name (CRENOPOLIS_MARKET env) \<and> t = teleportTime (CRENOPOLIS_MARKET env)) \<or>
                 (l = p_name (CRENOPOLIS_OUTSKIRTS env) \<and> t = teleportTime (CRENOPOLIS_OUTSKIRTS env))))"
proof -
  have ok: "length (legPortals env a b) \<le> 1"
    "\<forall>p \<in> set (legPortals env a b). 0 \<le> portalTime env p \<and> portalTime env p \<le> legTime env a b"
    using assms by (simp_all add: oracleOK_def)
  show ?thesis
  proof (cases "legPortals env a b")
    case Nil
    then show ?thesis by (simp add: travelSteps_legPortals)
  next
    case (Cons p ps)
    then have ps: "ps = []" using ok(1) by simp
    have p: "isPortalNode env p" "0 \<le> portalTime env p" "portalTime env p \<le> legTime env a b"
      using Cons ok(2) filter_eq_ConsD[of "isPortalNode env" _ p ps] 
      by (auto simp: legPortals_def)
    have "travelSteps env acts a b = teleportStep env (lastDist acts) p []"
      using Cons ps by (simp add: travelSteps_legPortals legTeleports_Cons)
    then show ?thesis using p
      by (auto simp: teleportStep_def includeTeleportSteps_def isPortalNode_def portalTime_def
               split: if_splits)
  qed
qed


lemma legTime_nonneg: "oracleOK env \<Longrightarrow> 0 \<le> legTime env a b"
  by (cases a) (simp_all add: legTime_def oracleOK_def)

text \<open>
  The step shared by a sale, a purchase and the return: the travel steps of the leg (when
  nothing has happened at the stop yet) followed by an action at a time \<open>d\<close>.
\<close>

lemma timeline_leg_then_action:
  assumes ok: "oracleOK env"
    and tl: "timeline env acts"
    and dep: "lastDist acts + legTime env a b \<le> d"
    and nt: "\<not> isTeleport x" and dx: "a_distance x = d"
  shows "timeline env (addTravelSteps env acts a b @ [x])"
proof -
  have leg: "0 \<le> legTime env a b" using ok by (rule legTime_nonneg)
  from travelSteps_cases[OF ok, of acts a b] show ?thesis
  proof
    assume e: "travelSteps env acts a b = []"
    have "acts \<noteq> [] \<longrightarrow> a_distance (last acts) \<le> a_distance x"
      using dep leg dx by (auto simp: lastDist_def)
    then show ?thesis using tl nt by (simp add: addTravelSteps_append e timeline_snoc)
  next
    assume "\<exists>l t. travelSteps env acts a b = [Teleport l (lastDist acts + t)] \<and>
                0 \<le> t \<and> t \<le> legTime env a b \<and>
                ((l = p_name (CRENOPOLIS_MARKET env) \<and> t = teleportTime (CRENOPOLIS_MARKET env)) \<or>
                 (l = p_name (CRENOPOLIS_OUTSKIRTS env) \<and> t = teleportTime (CRENOPOLIS_OUTSKIRTS env)))"
    then obtain l t where e: "travelSteps env acts a b = [Teleport l (lastDist acts + t)]"
      and t: "0 \<le> t" "t \<le> legTime env a b"
      and lt: "(l = p_name (CRENOPOLIS_MARKET env) \<and> t = teleportTime (CRENOPOLIS_MARKET env)) \<or>
               (l = p_name (CRENOPOLIS_OUTSKIRTS env) \<and> t = teleportTime (CRENOPOLIS_OUTSKIRTS env))"
      by blast
    have 1: "timeline env (acts @ [Teleport l (lastDist acts + t)])"
      unfolding timeline_snoc using tl t(1) lt by (auto simp: lastDist_def)
    have 2: "timeline env ((acts @ [Teleport l (lastDist acts + t)]) @ [x])"
      unfolding timeline_snoc[of env "acts @ [Teleport l (lastDist acts + t)]"]
      using 1 nt dep t(2) dx by simp
    show ?thesis using 2 by (simp add: addTravelSteps_append e)
  qed
qed

lemma timeline_action:
  assumes "timeline env acts" "lastDist acts \<le> d" "\<not> isTeleport x" "a_distance x = d"
  shows "timeline env (acts @ [x])"
  unfolding timeline_snoc using assms by (auto simp: lastDist_def)

definition timeInv :: "Env \<Rightarrow> node option \<Rightarrow> node \<Rightarrow> Visit \<Rightarrow> bool" where
  "timeInv env prev cur v \<longleftrightarrow>
     timeline env (v_actions v) \<and>
     lastDist (v_actions v)
       + (if numItemsBought v + numItemsSold v = 0 then legTime env prev cur else 0)
     \<le> v_distance v"

lemma lastDist_snoc [simp]: "lastDist (acts @ [x]) = a_distance x"
  by (simp add: lastDist_def)

lemma sellAt_timeInv:
  assumes "oracleOK env" "timeInv env prev cur v"
  shows "timeInv env prev cur (sellAt env bs prev cur i v)"
proof (cases "cur = m_node (buyer (bountyData env (bs ! i))) \<and> i < length (v_states v) \<and> v_states v ! i = IN_PROGRESS")
  case False
  then show ?thesis using assms(2) by (auto simp: sellAt_def Let_def)
next
  case True
  define x where "x = Sell (bs ! i) (m_name (buyer (bountyData env (bs ! i)))) (v_distance v + timeToSell)"
  have x: "\<not> isTeleport x" "a_distance x = v_distance v + timeToSell" by (simp_all add: x_def)
  show ?thesis
  proof (cases "numItemsBought v + numItemsSold v = 0")
    case z: True
    have "timeline env (addTravelSteps env (v_actions v) prev cur @ [x])"
      using assms z x by (intro timeline_leg_then_action) (auto simp: timeInv_def timeToSell_def)
    then show ?thesis using True z by (simp add: sellAt_def Let_def timeInv_def x_def)
  next
    case z: False
    have "timeline env (v_actions v @ [x])"
      using assms z x by (intro timeline_action) (auto simp: timeInv_def timeToSell_def)
    then show ?thesis using True z by (auto simp: sellAt_def Let_def timeInv_def x_def)
  qed
qed

lemma buyAt_timeInv:
  assumes "oracleOK env" "timeInv env prev cur v"
  shows "timeInv env prev cur (buyAt env bs prev cur i v)"
proof (cases "cur = m_node (seller (bountyData env (bs ! i))) \<and> i < length (v_states v) \<and> v_states v ! i = NOT_STARTED")
  case False
  then show ?thesis using assms(2) by (auto simp: buyAt_def Let_def)
next
  case True
  define d where "d = (if numItemsBought v = 0 then v_distance v + timeToBuy else v_distance v)"
  define x where "x = Buy (bs ! i) (m_name (seller (bountyData env (bs ! i)))) d"
  have x: "\<not> isTeleport x" "a_distance x = d" by (simp_all add: x_def)
  have d: "v_distance v \<le> d" by (simp add: d_def timeToBuy_def)
  show ?thesis
  proof (cases "numItemsBought v + numItemsSold v = 0")
    case z: True
    have "timeline env (addTravelSteps env (v_actions v) prev cur @ [x])"
      using assms z x d by (intro timeline_leg_then_action) (auto simp: timeInv_def)
    then show ?thesis using True z by (simp add: buyAt_def Let_def timeInv_def x_def d_def)
  next
    case z: False
    have "timeline env (v_actions v @ [x])"
      using assms z x d by (intro timeline_action) (auto simp: timeInv_def)
    then show ?thesis using True z by (auto simp: buyAt_def Let_def timeInv_def x_def d_def)
  qed
qed

lemma sellLoop_fold_timeInv:
  "oracleOK env \<Longrightarrow> timeInv env prev cur v \<Longrightarrow>
   timeInv env prev cur (fold (sellAt env bs prev cur) is v)"
  by (induction "is" arbitrary: v) (simp_all add: sellAt_timeInv)

lemma buyLoop_timeInv:
  "oracleOK env \<Longrightarrow> timeInv env prev cur v \<Longrightarrow>
   timeInv env prev cur (buyLoop env bs prev cur is v)"
  by (induction "is" arbitrary: v) (simp_all add: buyAt_timeInv)

text \<open>The invariant of a queued state: its actions are in order and end no later than the
  departure for the leg that brought the state to its node.\<close>

definition stateTimeInv :: "Env \<Rightarrow> SearchState \<Rightarrow> bool" where
  "stateTimeInv env s \<longleftrightarrow>
     timeline env (actions s) \<and>
     lastDist (actions s) + legTime env (previousNode s) (currentNode s) \<le> s_distance s"

lemma visit_timeInv:
  assumes "oracleOK env" "stateTimeInv env s"
  shows "timeline env (v_actions (visit env bs s)) \<and>
         lastDist (v_actions (visit env bs s)) \<le> v_distance (visit env bs s)"
proof -
  have "timeInv env (previousNode s) (currentNode s) (visit env bs s)"
    unfolding visit_def sellLoop_def
    using assms by (intro buyLoop_timeInv sellLoop_fold_timeInv) (simp_all add: timeInv_def stateTimeInv_def)
  then show ?thesis using legTime_nonneg[OF assms(1), of "previousNode s" "currentNode s"]
    by (auto simp: timeInv_def split: if_splits)
qed

lemma findBestRoute_timeline:
  assumes ok: "oracleOK env" and res: "findBestRoute env bs best rt = Some r"
  shows "timeline env (r_actions r)"
proof -
  let ?I = "stateTimeInv env"
  have i: "?I (initialState env bs)"
    by (simp add: initialState_def stateTimeInv_def timeline_def chronological_def lastDist_def legTime_def)
  have st: "?I s'" if "reached env bs best s" "?I s"
    "s' \<in> set (nextStates env bs best (currentNode s) (visit env bs s) [])" for s s'
    using nextStates_fields[OF that(3)] visit_timeInv[OF ok that(2), of bs]
    by (simp add: stateTimeInv_def legTime_def)
  have "\<exists>s. reached env bs best s \<and> ?I s \<and> deliveriesCompleted (v_states (visit env bs s)) \<and>
             r_distance r < best \<and> r = routeOf env bs rt s"
    using res i st by (rule findBestRoute_invariant)
  then obtain s where s: "?I s" "r = routeOf env bs rt s" by blast
  let ?v = "visit env bs s"
  have v: "timeline env (v_actions ?v)" "lastDist (v_actions ?v) \<le> v_distance ?v"
    using visit_timeInv[OF ok s(1), of bs] by simp_all
  show ?thesis
  proof (cases "rt \<and> currentNode s \<noteq> m_node (bountyBoard env)")
    case False
    then show ?thesis using v(1) s(2) by (auto simp: routeOf_def Let_def)
  next
    case True
    let ?d = "v_distance ?v + g_distance (gps env (Some (currentNode s)) (m_node (bountyBoard env)))"
    have "timeline env (addTravelSteps env (v_actions ?v) (Some (currentNode s)) (m_node (bountyBoard env))
                         @ [Return (m_name (bountyBoard env)) ?d])"
      using ok v by (intro timeline_leg_then_action[where d="?d"]) (simp_all add: legTime_def)
    then show ?thesis using True s(2) by (simp add: routeOf_def Let_def)
  qed
qed

section \<open>A small world for the examples\<close>

text \<open>
  Four places on a line: the bounty board at 0, the greengrocer at 10, the toy stall at 5
  and the chef at 20. The oracle returns the distance along the line and the direct path,
  except that the path from the board to the greengrocer runs through the given inner
  nodes. Node 8 is the market portal and node 9 the outskirts portal. Carrots go from the
  greengrocer to the toy stall and tomatoes from the greengrocer to the chef, as in the
  catalogue (\<^verbatim>\<open>bounties.ts\<close>).
\<close>

definition linePos :: "node \<Rightarrow> rat" where
  "linePos n = (if n = 1 then 10 else if n = 2 then 5 else if n = 3 then 20 else 0)"

definition lineWorldVia :: "node list \<Rightarrow> Env" where
  "lineWorldVia inner =
     \<lparr>gps = (\<lambda>a b. case a of
               None \<Rightarrow> \<lparr>g_distance = 0, g_path = []\<rparr>
             | Some x \<Rightarrow> \<lparr>g_distance = \<bar>linePos x - linePos b\<bar>,
                          g_path = (if x = 0 \<and> b = 1 then [x] @ inner @ [b] else [x, b])\<rparr>),
      bountyData = (\<lambda>k. if k = ''CARROTS''
                         then \<lparr>kp = 9, seller = \<lparr>m_name = ''Greengrocers'', m_node = 1\<rparr>,
                               buyer = \<lparr>m_name = ''Toy Stall'', m_node = 2\<rparr>\<rparr>
                         else \<lparr>kp = 8, seller = \<lparr>m_name = ''Greengrocers'', m_node = 1\<rparr>,
                               buyer = \<lparr>m_name = ''Chef'', m_node = 3\<rparr>\<rparr>),
      bountyBoard = \<lparr>m_name = ''Bounty Board'', m_node = 0\<rparr>,
      CRENOPOLIS_MARKET = \<lparr>p_name = ''Crenopolis Market'', p_node = 8, teleportTime = 5\<rparr>,
      CRENOPOLIS_OUTSKIRTS = \<lparr>p_name = ''Crenopolis Outskirts'', p_node = 9, teleportTime = 2\<rparr>\<rparr>"

definition lineWorld :: Env where
  "lineWorld = lineWorldVia []"

definition lineRoute :: Route where
  "lineRoute =
     \<lparr>r_actions = [Buy ''CARROTS'' ''Greengrocers'' 13, Buy ''TOMATOES'' ''Greengrocers'' 13,
                   Sell ''CARROTS'' ''Toy Stall'' 22, Sell ''TOMATOES'' ''Chef'' 41,
                   Return ''Bounty Board'' 61],
      r_distance = 61\<rparr>"

lemma lineWorld_route:
  "findBestRoute lineWorld [''CARROTS'', ''TOMATOES''] MAX_SAFE_INTEGER True = Some lineRoute"
  by code_simp

text \<open>
  The same round trip under the threshold 61: the route the planner returns then, and the
  itinerary greengrocer, chef, toy stall with the state it ends in. Under the threshold 51
  there is no route.
\<close>

definition shortRoute :: Route where
  "shortRoute =
     \<lparr>r_actions = [Buy ''CARROTS'' ''Greengrocers'' 13, Buy ''TOMATOES'' ''Greengrocers'' 13,
                   Sell ''TOMATOES'' ''Chef'' 27, Sell ''CARROTS'' ''Toy Stall'' 46,
                   Return ''Bounty Board'' 51],
      r_distance = 51\<rparr>"

definition lastStop :: SearchState where
  "lastStop =
     \<lparr>s_distance = 42, previousNode = Some 3, currentNode = 2,
      bountyStates = [IN_PROGRESS, COMPLETED],
      actions = [Buy ''CARROTS'' ''Greengrocers'' 13, Buy ''TOMATOES'' ''Greengrocers'' 13,
                 Sell ''TOMATOES'' ''Chef'' 27]\<rparr>"

lemma lineWorld_short_route:
  "findBestRoute lineWorld [''CARROTS'', ''TOMATOES''] 61 True = Some shortRoute"
  by code_simp

lemma lineWorld_no_route:
  "findBestRoute lineWorld [''CARROTS'', ''TOMATOES''] 51 True = None"
  by code_simp

lemma lineWorld_itinerary:
  "follow lineWorld [''CARROTS'', ''TOMATOES'']
     (initialState lineWorld [''CARROTS'', ''TOMATOES'']) [1, 3, 2] = Some lastStop"
  "deliveriesCompleted (v_states (visit lineWorld [''CARROTS'', ''TOMATOES''] lastStop))"
  "r_distance (routeOf lineWorld [''CARROTS'', ''TOMATOES''] True lastStop) < 61"
  by code_simp+

lemma lineWorld_nonneg: "\<forall>a b. 0 \<le> g_distance (gps lineWorld a b)"
proof (intro allI)
  fix a b show "0 \<le> g_distance (gps lineWorld a b)"
    by (cases a) (simp_all add: lineWorld_def lineWorldVia_def)
qed


definition portalRoute :: Route where
  "portalRoute =
     \<lparr>r_actions = [Teleport ''Crenopolis Market'' 5,
                   Buy ''CARROTS'' ''Greengrocers'' 13, Buy ''TOMATOES'' ''Greengrocers'' 13,
                   Sell ''CARROTS'' ''Toy Stall'' 22, Sell ''TOMATOES'' ''Chef'' 41,
                   Return ''Bounty Board'' 61],
      r_distance = 61\<rparr>"

lemma portalWorld_route:
  "findBestRoute (lineWorldVia [8]) [''CARROTS'', ''TOMATOES''] MAX_SAFE_INTEGER True
   = Some portalRoute"
  by code_simp

lemma innerNodes_simps:
  "innerNodes [] = []" "innerNodes [x, z] = []" "innerNodes [x, y, z] = [y]"
proof -
  have "[1..<2] = [Suc 0]" by (simp add: numeral_2_eq_2)
  then show "innerNodes [] = []" "innerNodes [x, z] = []" "innerNodes [x, y, z] = [y]"
    by (simp_all add: innerNodes_def)
qed

lemma portalWorld_ok: "oracleOK (lineWorldVia [8])"
proof -
  have p: "legPortals (lineWorldVia [8]) a b = (if a = Some 0 \<and> b = 1 then [8] else [])" for a b
    by (cases a) (simp_all add: legPortals_def innerNodes_simps isPortalNode_def lineWorldVia_def)
  have d: "0 \<le> g_distance (gps (lineWorldVia [8]) a b)" for a b
    by (cases a) (simp_all add: lineWorldVia_def)
  have t: "portalTime (lineWorldVia [8]) 8 = 5" "legTime (lineWorldVia [8]) (Some 0) 1 = 10"
    by (simp_all add: portalTime_def legTime_def lineWorldVia_def linePos_def)
  show ?thesis
    unfolding oracleOK_def
  proof (intro allI conjI)
    fix a b
    show "0 \<le> g_distance (gps (lineWorldVia [8]) a b)" by (rule d)
    show "length (legPortals (lineWorldVia [8]) a b) \<le> 1" by (simp add: p)
    show "\<forall>p\<in>set (legPortals (lineWorldVia [8]) a b).
            0 \<le> portalTime (lineWorldVia [8]) p \<and>
            portalTime (lineWorldVia [8]) p \<le> legTime (lineWorldVia [8]) a b"
      using t by (simp add: p)
  qed
qed


text \<open>
  C1 (at a failing input). Round trip over carrots and tomatoes in the line world, no
  effective threshold: the first terminal state to leave the queue is the one that reaches
  its last stop first (the chef, at time 37), and \<^verbatim>\<open>findBestRoute\<close> returns its route of
  61 seconds. The route that ends at the toy stall reaches its last stop later (at 42) but
  is home after 51 seconds; \<^verbatim>\<open>findBestRoute\<close> itself finds it when the threshold is 61.
\<close>

theorem findBestRoute_first_terminal_not_shortest:
  "findBestRoute lineWorld [''CARROTS'', ''TOMATOES''] MAX_SAFE_INTEGER True
     = Some \<lparr>r_actions = [Buy ''CARROTS'' ''Greengrocers'' 13, Buy ''TOMATOES'' ''Greengrocers'' 13,
                           Sell ''CARROTS'' ''Toy Stall'' 22, Sell ''TOMATOES'' ''Chef'' 41,
                           Return ''Bounty Board'' 61],
             r_distance = 61\<rparr> \<and>
   findBestRoute lineWorld [''CARROTS'', ''TOMATOES''] 61 True
     = Some \<lparr>r_actions = [Buy ''CARROTS'' ''Greengrocers'' 13, Buy ''TOMATOES'' ''Greengrocers'' 13,
                           Sell ''TOMATOES'' ''Chef'' 27, Sell ''CARROTS'' ''Toy Stall'' 46,
                           Return ''Bounty Board'' 51],
             r_distance = 51\<rparr>"
  by code_simp

theorem findBestRoute_within_threshold_witness:
  "findBestRoute lineWorld [''CARROTS'', ''TOMATOES''] 61 True = Some shortRoute \<and>
   r_distance shortRoute < 61 \<and>
   (\<exists>s nodes. terminalUnder lineWorld [''CARROTS'', ''TOMATOES''] 61 True s \<and>
        follow lineWorld [''CARROTS'', ''TOMATOES'']
          (initialState lineWorld [''CARROTS'', ''TOMATOES'']) nodes = Some s \<and>
        shortRoute = routeOf lineWorld [''CARROTS'', ''TOMATOES''] True s) \<and>
   findBestRoute lineWorld [''CARROTS'', ''TOMATOES''] 51 True = None \<and>
   \<not> (\<exists>s. terminalUnder lineWorld [''CARROTS'', ''TOMATOES''] 51 True s) \<and>
   (\<forall>a b. 0 \<le> g_distance (gps lineWorld a b)) \<and>
   follow lineWorld [''CARROTS'', ''TOMATOES'']
     (initialState lineWorld [''CARROTS'', ''TOMATOES'']) [1, 3, 2] = Some lastStop \<and>
   deliveriesCompleted (v_states (visit lineWorld [''CARROTS'', ''TOMATOES''] lastStop)) \<and>
   r_distance (routeOf lineWorld [''CARROTS'', ''TOMATOES''] True lastStop) < 61 \<and>
   findBestRoute lineWorld [''CARROTS'', ''TOMATOES''] 61 True \<noteq> None"
  using findBestRoute_within_threshold[of lineWorld "[''CARROTS'', ''TOMATOES'']" 61 True]
        findBestRoute_within_threshold[of lineWorld "[''CARROTS'', ''TOMATOES'']" 51 True]
        lineWorld_short_route lineWorld_no_route lineWorld_itinerary lineWorld_nonneg
  by blast

theorem findBestRoute_capacity_witness:
  "findBestRoute lineWorld [''CARROTS'', ''TOMATOES''] MAX_SAFE_INTEGER True = Some lineRoute \<and>
   (1::nat) \<le> length (r_actions lineRoute) \<and>
   inUse (take 1 (r_actions lineRoute)) \<le> inventorySpace \<and>
   isBuy (r_actions lineRoute ! 1) \<and>
   inUse (take 1 (r_actions lineRoute)) + 6 \<le> inventorySpace"
proof -
  have k: "(1::nat) \<le> length (r_actions lineRoute)" by (simp add: lineRoute_def)
  have b: "1 < length (r_actions lineRoute) \<and> isBuy (r_actions lineRoute ! 1)"
    by (simp add: lineRoute_def)
  show ?thesis
    using findBestRoute_capacity[OF lineWorld_route k] lineWorld_route k b by blast
qed

theorem findBestRoute_buys_then_sells_witness:
  "findBestRoute lineWorld [''CARROTS'', ''TOMATOES''] MAX_SAFE_INTEGER True = Some lineRoute \<and>
   bought ''CARROTS'' (r_actions lineRoute) = count_list [''CARROTS'', ''TOMATOES''] ''CARROTS'' \<and>
   sold ''CARROTS'' (r_actions lineRoute) = count_list [''CARROTS'', ''TOMATOES''] ''CARROTS'' \<and>
   sold ''CARROTS'' (take 3 (r_actions lineRoute)) \<le> bought ''CARROTS'' (take 3 (r_actions lineRoute))"
  using findBestRoute_buys_then_sells[OF lineWorld_route, of "''CARROTS''" 3] lineWorld_route
  by blast

text \<open>
  C7 (at a failing input). The path from the board to the greengrocer runs through the
  market portal and the outskirts portal. \<^verbatim>\<open>#addTravelSteps\<close> reads the time of the last
  action once, before its loop, so both teleport steps of the leg are stamped from the time
  before the leg (0): the second is stamped 2 after a step stamped 5, where the previous
  action's time plus the teleport time is 7. The recorded times decrease, although the
  time of an action is documented as the total time it takes to complete the action, and
  the sell, buy and return steps are stamped cumulatively.
\<close>

theorem findBestRoute_second_teleport_stamped_early:
  "findBestRoute (lineWorldVia [8, 9]) [''CARROTS'', ''TOMATOES''] MAX_SAFE_INTEGER True
     = Some \<lparr>r_actions = [Teleport ''Crenopolis Market'' 5, Teleport ''Crenopolis Outskirts'' 2,
                           Buy ''CARROTS'' ''Greengrocers'' 13, Buy ''TOMATOES'' ''Greengrocers'' 13,
                           Sell ''CARROTS'' ''Toy Stall'' 22, Sell ''TOMATOES'' ''Chef'' 41,
                           Return ''Bounty Board'' 61],
             r_distance = 61\<rparr> \<and>
   \<not> chronological [Teleport ''Crenopolis Market'' 5, Teleport ''Crenopolis Outskirts'' 2,
                     Buy ''CARROTS'' ''Greengrocers'' 13, Buy ''TOMATOES'' ''Greengrocers'' 13,
                     Sell ''CARROTS'' ''Toy Stall'' 22, Sell ''TOMATOES'' ''Chef'' 41,
                     Return ''Bounty Board'' 61] \<and>
   \<not> stamped (lineWorldVia [8, 9]) 0
        [Teleport ''Crenopolis Market'' 5, Teleport ''Crenopolis Outskirts'' 2,
         Buy ''CARROTS'' ''Greengrocers'' 13, Buy ''TOMATOES'' ''Greengrocers'' 13,
         Sell ''CARROTS'' ''Toy Stall'' 22, Sell ''TOMATOES'' ''Chef'' 41,
         Return ''Bounty Board'' 61]"
  by code_simp

text \<open>
  The defect is confined to such legs. When the oracle's times are non-negative and every
  leg passes at most one portal node, whose teleport time is non-negative and at most the
  leg's time, the times recorded along a returned route never decrease, and every teleport
  step is stamped with the time of the action before it (0 when it comes first) plus its
  portal's teleport time.
\<close>

lemma findBestRoute_chronological:
  assumes "oracleOK env"
    and "findBestRoute env bounties threshold roundTrip = Some r"
  shows "chronological (r_actions r) \<and> stamped env 0 (r_actions r)"
  using findBestRoute_timeline[OF assms] by (simp add: timeline_def)

lemma portalWorld_chronological:
  "oracleOK (lineWorldVia [8]) \<and>
   findBestRoute (lineWorldVia [8]) [''CARROTS'', ''TOMATOES''] MAX_SAFE_INTEGER True = Some portalRoute \<and>
   chronological (r_actions portalRoute) \<and> stamped (lineWorldVia [8]) 0 (r_actions portalRoute)"
  using findBestRoute_chronological[OF portalWorld_ok portalWorld_route] portalWorld_ok portalWorld_route
  by blast

section \<open>The combination selector\<close>

text \<open>
  Modelled from the spec: \<^verbatim>\<open>combinations(items, k)\<close> (module \<^verbatim>\<open>./combinations\<close>, not part
  of the sources at hand). It produces every \<open>k\<close>-subset of the input, the entries of the
  input taken as distinguishable slots, and keeps one subset of each content (subsets are
  compared without regard to order). The test files of the repository record 490 subsets
  of size 6 for twelve bounties with two doubled names, which is the number of distinct
  contents.
\<close>

fun subsetsOfSize :: "nat \<Rightarrow> 'a list \<Rightarrow> 'a list list" where
  "subsetsOfSize 0 xs = [[]]"
| "subsetsOfSize (Suc k) [] = []"
| "subsetsOfSize (Suc k) (x # xs) = map ((#) x) (subsetsOfSize k xs) @ subsetsOfSize (Suc k) xs"

definition sameContent :: "string list \<Rightarrow> string list \<Rightarrow> bool" where
  "sameContent a b = list_all (\<lambda>x. count_list a x = count_list b x) (a @ b)"

definition combinations :: "string list \<Rightarrow> nat \<Rightarrow> string list list" where
  "combinations items k =
     foldl (\<lambda>kept c. if list_ex (sameContent c) kept then kept else kept @ [c]) []
       (subsetsOfSize k items)"

text \<open>
  \<^verbatim>\<open>findBestBounties\<close>. Of the pruning options \<^verbatim>\<open>maxCombinations\<close> is only logged;
  \<^verbatim>\<open>maxEvaluations\<close> is a number or \<^verbatim>\<open>Infinity\<close> (\<open>None\<close>).
\<close>

record PruningOptions =
  maxEvaluations :: "nat option"
  pruningThreshold :: rat

record ComboData =
  combo :: "string list"
  c_kp :: rat
  estimatedDistance :: rat
  estimatedEfficiency :: rat

record Result =
  res_bounties :: "string list"
  res_actions :: "Action list"
  res_distance :: rat
  res_kp :: rat

text \<open>\<^verbatim>\<open>#estimateMinDistance\<close>: 10 seconds for every distinct location, plus the buy and sell
  times of every bounty.\<close>

definition estimateMinDistance :: "Env \<Rightarrow> string list \<Rightarrow> rat" where
  "estimateMinDistance env c =
     of_nat (length (remdups (concat (map (\<lambda>bounty.
                [m_node (seller (bountyData env bounty)), m_node (buyer (bountyData env bounty))]) c)))) * 10
     + of_nat (length c) * (timeToBuy + timeToSell)"

definition comboDataOf :: "Env \<Rightarrow> string list \<Rightarrow> ComboData" where
  "comboDataOf env c =
     (let k = fold (\<lambda>bounty acc. acc + kp (bountyData env bounty)) c 0;
          e = estimateMinDistance env c
      in \<lparr>combo = c, c_kp = k, estimatedDistance = e, estimatedEfficiency = k / e\<rparr>)"

text \<open>
  Efficiency, reward per second. Division is the rationals' division: the model follows
  the source as long as no route has time 0, which is so for every route of a non-empty
  subset when the oracle's times are not negative. Likewise the estimated distance above
  is positive for every non-empty subset.
\<close>

definition efficiency :: "Result \<Rightarrow> rat" where
  "efficiency r = res_kp r / res_distance r"

text \<open>\<^verbatim>\<open>results.sort((a, b) => b.kp / b.distance - a.kp / a.distance)\<close>: a stable sort, best
  efficiency first.\<close>

definition sortResults :: "Result list \<Rightarrow> Result list" where
  "sortResults rs = sort_key (\<lambda>r. - efficiency r) rs"

text \<open>
  The evaluation loop, with its two early exits. \<open>None\<close> is the \<^verbatim>\<open>TypeError\<close> of reading
  a field of the last result of an empty list, which happens only for \<^verbatim>\<open>numResults = 0\<close>:
  in the pruning test, or where the threshold is taken.
\<close>

fun evaluate :: "Env \<Rightarrow> bool \<Rightarrow> nat \<Rightarrow> PruningOptions \<Rightarrow> ComboData list \<Rightarrow> Result list \<Rightarrow> nat
    \<Rightarrow> Result list option" where
  "evaluate env roundTrip numResults opts [] results evaluated = Some results"
| "evaluate env roundTrip numResults opts (c # cs) results evaluated =
     (if pruningThreshold opts < 1 \<and> numResults \<le> length results \<and> results = [] then None
      else if pruningThreshold opts < 1 \<and> numResults \<le> length results \<and>
              estimatedEfficiency c < efficiency (last results) * pruningThreshold opts
      then Some results
      else if (case maxEvaluations opts of None \<Rightarrow> False
               | Some m \<Rightarrow> m \<le> evaluated \<and> numResults \<le> length results)
      then Some results
      else if numResults \<le> length results \<and> results = [] then None
      else
        let threshold = (if numResults \<le> length results then res_distance (last results)
                         else MAX_SAFE_INTEGER)
        in case findBestRoute env (combo c) threshold roundTrip of
             None \<Rightarrow> evaluate env roundTrip numResults opts cs results (evaluated + 1)
           | Some route \<Rightarrow>
               let pushed = results @ [\<lparr>res_bounties = combo c, res_actions = r_actions route,
                                        res_distance = r_distance route, res_kp = c_kp c\<rparr>];
                   kept = (if numResults < length pushed
                           then take numResults (sortResults pushed) else pushed)
               in evaluate env roundTrip numResults opts cs kept (evaluated + 1))"

definition findBestBounties :: "(string list \<Rightarrow> nat \<Rightarrow> string list list) \<Rightarrow> Env \<Rightarrow> string list \<Rightarrow> bool
    \<Rightarrow> nat \<Rightarrow> PruningOptions \<Rightarrow> Result list option" where
  "findBestBounties comb env bounties roundTrip numResults opts =
     (let maxComboSize = min (length bounties) 6;
          combos = comb bounties maxComboSize;
          comboData = sort_key (\<lambda>c. - estimatedEfficiency c) (map (comboDataOf env) combos)
      in map_option sortResults (evaluate env roundTrip numResults opts comboData [] 0))"

text \<open>
  The two sets of options \<^verbatim>\<open>computeFindBest\<close> passes: all combinations, no pruning (the
  forced "optimal" recalculation), and the default.
\<close>

definition exhaustive :: PruningOptions where
  "exhaustive = \<lparr>maxEvaluations = None, pruningThreshold = 1\<rparr>"

definition pruned :: PruningOptions where
  "pruned = \<lparr>maxEvaluations = Some 150, pruningThreshold = 95 / 100\<rparr>"

text \<open>
  A second small world, again on a line: the bounty board at 0, Janessa's delicacies at 20,
  Bogg's antiques at 10, Francesca's fruit stall at 21 and the textiles stall at 9. Caviar
  (4 KP) goes from Janessa's to Bogg's and oranges (11.5 KP) from Francesca's to the
  textiles stall, as in the catalogue.
\<close>

definition stallPos :: "node \<Rightarrow> rat" where
  "stallPos n = (if n = 1 then 20 else if n = 2 then 10 else if n = 3 then 21
                 else if n = 4 then 9 else 0)"

definition stallWorld :: Env where
  "stallWorld =
     \<lparr>gps = (\<lambda>a b. case a of
               None \<Rightarrow> \<lparr>g_distance = 0, g_path = []\<rparr>
             | Some x \<Rightarrow> \<lparr>g_distance = \<bar>stallPos x - stallPos b\<bar>, g_path = [x, b]\<rparr>),
      bountyData = (\<lambda>k. if k = ''CAVIAR''
                         then \<lparr>kp = 4, seller = \<lparr>m_name = ''Janessas Delicacies'', m_node = 1\<rparr>,
                               buyer = \<lparr>m_name = ''Boggs Antiques'', m_node = 2\<rparr>\<rparr>
                         else \<lparr>kp = 23 / 2,
                               seller = \<lparr>m_name = ''Francescas Fruit Stall'', m_node = 3\<rparr>,
                               buyer = \<lparr>m_name = ''Textiles Stall'', m_node = 4\<rparr>\<rparr>),
      bountyBoard = \<lparr>m_name = ''Bounty Board'', m_node = 0\<rparr>,
      CRENOPOLIS_MARKET = \<lparr>p_name = ''Crenopolis Market'', p_node = 8, teleportTime = 5\<rparr>,
      CRENOPOLIS_OUTSKIRTS = \<lparr>p_name = ''Crenopolis Outskirts'', p_node = 9, teleportTime = 2\<rparr>\<rparr>"

lemma stallWorld_selected:
  "map_option (map (\<lambda>r. (res_bounties r, res_distance r, res_kp r)))
     (findBestBounties combinations stallWorld
        [''CAVIAR'', ''CAVIAR'', ''CAVIAR'', ''ORANGES'', ''CAVIAR'', ''CAVIAR'', ''CAVIAR'']
        True 1 exhaustive)
   = Some [([''CAVIAR'', ''CAVIAR'', ''CAVIAR'', ''CAVIAR'', ''CAVIAR'', ''CAVIAR''], 90, 24)]"
  by code_simp

lemma stallWorld_other_route:
  "map_option r_distance
     (findBestRoute stallWorld
        [''CAVIAR'', ''CAVIAR'', ''CAVIAR'', ''ORANGES'', ''CAVIAR'', ''CAVIAR'']
        MAX_SAFE_INTEGER True) = Some 97"
  by code_simp

lemma stallWorld_other_kp:
  "c_kp (comboDataOf stallWorld
           [''CAVIAR'', ''CAVIAR'', ''CAVIAR'', ''ORANGES'', ''CAVIAR'', ''CAVIAR'']) = 63 / 2"
  by code_simp

text \<open>
  C2 (at a failing input). Six caviar bounties and one oranges bounty, one result asked
  for, exhaustive mode. There are two subsets of six. Six caviar has the better estimate
  (24/62 against 31.5/82) and is planned first: 90 seconds, 24 KP. Five caviar and oranges
  is then planned with threshold 90, the time of the kept result; every route for it takes
  longer, so \<^verbatim>\<open>findBestRoute\<close> answers \<^verbatim>\<open>null\<close> and the subset is skipped. Planned without
  that threshold it has a route of 97 seconds for 31.5 KP, an efficiency of about 0.325
  against the 0.267 of the result returned.
\<close>

theorem findBestBounties_exhaustive_not_exact:
  "map_option (map (\<lambda>r. (res_bounties r, res_distance r, res_kp r)))
     (findBestBounties combinations stallWorld
        [''CAVIAR'', ''CAVIAR'', ''CAVIAR'', ''ORANGES'', ''CAVIAR'', ''CAVIAR'', ''CAVIAR'']
        True 1 exhaustive)
   = Some [([''CAVIAR'', ''CAVIAR'', ''CAVIAR'', ''CAVIAR'', ''CAVIAR'', ''CAVIAR''], 90, 24)] \<and>
   map_option r_distance
     (findBestRoute stallWorld
        [''CAVIAR'', ''CAVIAR'', ''CAVIAR'', ''ORANGES'', ''CAVIAR'', ''CAVIAR'']
        MAX_SAFE_INTEGER True) = Some 97 \<and>
   c_kp (comboDataOf stallWorld
           [''CAVIAR'', ''CAVIAR'', ''CAVIAR'', ''ORANGES'', ''CAVIAR'', ''CAVIAR'']) = 63 / 2 \<and>
   (24::rat) / 90 < (63 / 2) / 97"
  using stallWorld_selected stallWorld_other_route stallWorld_other_kp by simp

section \<open>The reconciliation state machine\<close>

text \<open>
  The class \<^verbatim>\<open>OCRProcessor\<close> of \<^verbatim>\<open>src/demo/electron-demo.ts\<close>. The model starts where the
  recognised texts have been turned into the two slot objects \<^verbatim>\<open>detectedActive\<close> and
  \<^verbatim>\<open>detectedBoard\<close>. A slot object (a JavaScript object with integer keys, enumerated in
  ascending key order) is an association list in ascending order of its keys. Times are
  milliseconds read from \<^verbatim>\<open>Date.now()\<close>; processing one snapshot is synchronous, and the
  model gives it one reading of the clock. A number that can be \<^verbatim>\<open>NaN\<close> is an \<open>option\<close>.
\<close>

type_synonym slots = "(nat \<times> string) list"

record InFlightFind =
  signature :: string
  startedAtMs :: int

record OCRProcessor =
  activeBounties :: slots
  boardBounties :: slots
  activeDrops :: "nat list"
  boardPickups :: "nat list"
  steps :: "Action list"
  o_kp :: rat
  distanceSeconds :: "rat option"
  displaySteps :: "Action list"
  displayKp :: rat
  displayDistanceSeconds :: "rat option"
  stepIdx :: nat
  prevActiveBounties :: slots
  prevOptimalBounties :: "string list"
  prevAllBountiesSignature :: string
  prevBoardOpenSignature :: bool
  pathfinderWorkerTimeoutMs :: int
  inFlightFind :: "InFlightFind option"
  launchedAtLeastOnce :: bool
  dropGraceMs :: int
  recentActiveAdds :: "nat \<Rightarrow> int option"
  suppressDropsWhileRecompute :: bool
  runStartTime :: int
  actualRunTimeSeconds :: rat
  runBounties :: "string list"
  runEstimatedTime :: "rat option"
  totalKpEarned :: rat
  totalDurationSeconds :: rat
  totalBountiesCompleted :: nat
  bountyTypeCounts :: "string \<Rightarrow> nat"
  sessionLogEntries :: nat

text \<open>The quotient of two JavaScript numbers, as far as the acceptance rule looks at it.\<close>

datatype Quotient = Finite rat | Infinity | NegInfinity | NaN

definition jsDivide :: "rat \<Rightarrow> rat \<Rightarrow> Quotient" where
  "jsDivide a b =
     (if b \<noteq> 0 then Finite (a / b)
      else if 0 < a then Infinity else if a < 0 then NegInfinity else NaN)"

fun exceeds :: "Quotient \<Rightarrow> rat \<Rightarrow> bool" where
  "exceeds (Finite x) c = (c < x)"
| "exceeds Infinity c = True"
| "exceeds NegInfinity c = False"
| "exceeds NaN c = False"

definition joinWith :: "string \<Rightarrow> string list \<Rightarrow> string" where
  "joinWith sep xs = (case xs of [] \<Rightarrow> [] | x # rest \<Rightarrow> x @ concat (map (\<lambda>y. sep @ y) rest))"

definition makeAllBountiesSignature :: "string list \<Rightarrow> string" where
  "makeAllBountiesSignature allBounties = joinWith ''|'' (sort allBounties)"

subsection \<open>Launching and completing a computation\<close>

text \<open>
  The synchronous part of \<^verbatim>\<open>launchFindBestIfNeeded\<close>: the checks on the computation in
  flight, and the registration of the new one. The computation itself runs later.
\<close>

definition launchFindBestIfNeeded :: "OCRProcessor \<Rightarrow> string \<Rightarrow> int \<Rightarrow> OCRProcessor" where
  "launchFindBestIfNeeded st sig now =
     (let start = st\<lparr>launchedAtLeastOnce := True,
                      inFlightFind := Some \<lparr>signature = sig, startedAtMs = now\<rparr>\<rparr>
      in case inFlightFind st of
           None \<Rightarrow> start
         | Some f \<Rightarrow>
             if signature f = sig then st
             else if pathfinderWorkerTimeoutMs st + 1000 < now - startedAtMs f then start
             else st)"

text \<open>Mid-route: the buy steps for items already held are dropped from a new plan.\<close>

fun filterSteps :: "string list \<Rightarrow> Action list \<Rightarrow> Action list" where
  "filterSteps have [] = []"
| "filterSteps have (Buy item l d # rest) =
     (if item \<in> set have then filterSteps have rest
      else Buy item l d # filterSteps (item # have) rest)"
| "filterSteps have (Sell item l d # rest) =
     Sell item l d # filterSteps (removeAll item have) rest"
| "filterSteps have (s # rest) = s # filterSteps have rest"

text \<open>The acceptance of a computed result (the body of the \<^verbatim>\<open>try\<close> block after the
  \<^verbatim>\<open>await\<close>).\<close>

definition acceptResult :: "OCRProcessor \<Rightarrow> Result \<Rightarrow> OCRProcessor" where
  "acceptResult st optimalResp =
     (let newEfficiency = jsDivide (res_kp optimalResp) (res_distance optimalResp);
          currentEfficiency =
            (if prevOptimalBounties st \<noteq> [] \<and>
                (case distanceSeconds st of Some d \<Rightarrow> 0 < d | None \<Rightarrow> False)
             then o_kp st / the (distanceSeconds st) else 0)
      in if currentEfficiency = 0 \<or> exceeds newEfficiency currentEfficiency then
           let st1 = st\<lparr>prevOptimalBounties := res_bounties optimalResp,
                         o_kp := res_kp optimalResp,
                         distanceSeconds := Some (res_distance optimalResp),
                         displayKp := res_kp optimalResp,
                         displayDistanceSeconds := Some (res_distance optimalResp)\<rparr>
           in if 0 < stepIdx st \<and> res_actions optimalResp \<noteq> [] then
                let filteredSteps = filterSteps (map snd (activeBounties st)) (res_actions optimalResp)
                in st1\<lparr>steps := filteredSteps, stepIdx := 0, displaySteps := filteredSteps\<rparr>
              else st1\<lparr>steps := res_actions optimalResp, displaySteps := res_actions optimalResp\<rparr>
         else st)"

text \<open>
  The completion of the computation launched for \<open>sig\<close>: with a result (\<open>Some\<close>), or with
  an exception such as the timeout (\<open>None\<close>), which keeps the previous state. In both cases
  the computation in flight is cleared if it is still the one for \<open>sig\<close>.
\<close>

definition completeFindBest :: "OCRProcessor \<Rightarrow> string \<Rightarrow> Result option \<Rightarrow> OCRProcessor" where
  "completeFindBest st sig outcome =
     (let st1 = (case outcome of
                   None \<Rightarrow> st
                 | Some optimalResp \<Rightarrow> (acceptResult st optimalResp)\<lparr>prevAllBountiesSignature := sig\<rparr>)
      in if (case inFlightFind st1 of Some f \<Rightarrow> signature f = sig | None \<Rightarrow> False)
         then st1\<lparr>inFlightFind := None\<rparr> else st1)"

subsection \<open>Processing a snapshot\<close>

text \<open>Newly held slots get a grace window; windows that are over, or whose slot is no
  longer held, are removed.\<close>

definition trackActiveAdds :: "OCRProcessor \<Rightarrow> slots \<Rightarrow> int \<Rightarrow> OCRProcessor" where
  "trackActiveAdds st detectedActive now =
     (let added = fold (\<lambda>idx m. if idx \<in> set (map fst (prevActiveBounties st)) then m
                                 else m(idx \<mapsto> now + dropGraceMs st))
                       (map fst detectedActive) (recentActiveAdds st)
      in st\<lparr>recentActiveAdds :=
              (\<lambda>idx. case added idx of
                        None \<Rightarrow> None
                      | Some expiresAt \<Rightarrow>
                          if expiresAt \<le> now then None
                          else if idx \<notin> set (map fst detectedActive) then None
                          else Some expiresAt)\<rparr>)"

definition startRunTimer :: "OCRProcessor \<Rightarrow> bool \<Rightarrow> int \<Rightarrow> OCRProcessor" where
  "startRunTimer st boardOpen now =
     (if boardOpen \<noteq> prevBoardOpenSignature st \<and> \<not> boardOpen \<and> prevBoardOpenSignature st
      then st\<lparr>runStartTime := now, actualRunTimeSeconds := 0,
              runBounties := prevOptimalBounties st, runEstimatedTime := distanceSeconds st\<rparr>
      else st)"

definition shouldRecompute :: "OCRProcessor \<Rightarrow> slots \<Rightarrow> slots \<Rightarrow> bool \<Rightarrow> string \<Rightarrow> bool" where
  "shouldRecompute st detectedActive detectedBoard boardOpen sig =
     (let boardTransition = (boardOpen \<noteq> prevBoardOpenSignature st);
          signatureChanged = (sig \<noteq> prevAllBountiesSignature st);
          firstRun = (\<not> launchedAtLeastOnce st);
          addingBounties = (length (prevActiveBounties st) < length detectedActive);
          boardBountiesChanged =
            (boardOpen \<and> joinWith '','' (sort (map snd (boardBounties st)))
                          \<noteq> joinWith '','' (sort (map snd detectedBoard)));
          haveOptimal = (prevOptimalBounties st \<noteq> []);
          activeMatchesOptimal =
            (joinWith '','' (sort (map snd detectedActive))
             = joinWith '','' (sort (prevOptimalBounties st)));
          adjustingBounties = (haveOptimal \<and> \<not> activeMatchesOptimal \<and> boardOpen)
      in firstRun \<or> boardTransition \<or> boardBountiesChanged \<or>
         (signatureChanged \<and> addingBounties \<and> \<not> adjustingBounties) \<or>
         (activeMatchesOptimal \<and> signatureChanged))"

definition triggerRecompute :: "OCRProcessor \<Rightarrow> slots \<Rightarrow> slots \<Rightarrow> bool \<Rightarrow> int \<Rightarrow> OCRProcessor" where
  "triggerRecompute st detectedActive detectedBoard boardOpen now =
     (let allBounties = filter (\<lambda>bounty. bounty \<noteq> ''PUMPKIN'')
                          (map snd detectedActive @ map snd detectedBoard);
          sig = makeAllBountiesSignature allBounties
      in if shouldRecompute st detectedActive detectedBoard boardOpen sig then
           let st1 = (if \<not> launchedAtLeastOnce st \<or> boardOpen \<noteq> prevBoardOpenSignature st
                      then st\<lparr>stepIdx := 0\<rparr> else st)
           in (launchFindBestIfNeeded st1 sig now)\<lparr>prevBoardOpenSignature := boardOpen\<rparr>
         else st)"

text \<open>The bounty whose count among the held slots went down, looked for only when exactly
  one held slot disappeared.\<close>

definition completedBounty :: "slots \<Rightarrow> slots \<Rightarrow> string option" where
  "completedBounty prevActive detectedActive =
     (if length detectedActive < length prevActive \<and>
         length prevActive - length detectedActive = 1
      then find (\<lambda>bounty. count_list (map snd detectedActive) bounty
                           < count_list (map snd prevActive) bounty)
                (map snd prevActive)
      else None)"

fun firstSellOf :: "string \<Rightarrow> Action list \<Rightarrow> nat option" where
  "firstSellOf bounty [] = None"
| "firstSellOf bounty (Sell item l d # rest) =
     (if item = bounty then Some 0 else map_option Suc (firstSellOf bounty rest))"
| "firstSellOf bounty (s # rest) = map_option Suc (firstSellOf bounty rest)"

definition pruneCompleted :: "Env \<Rightarrow> OCRProcessor \<Rightarrow> bool \<Rightarrow> string \<Rightarrow> OCRProcessor" where
  "pruneCompleted env st boardOpen bounty =
     (let st1 = (if \<not> boardOpen
                 then st\<lparr>totalBountiesCompleted := totalBountiesCompleted st + 1,
                         totalKpEarned := totalKpEarned st + kp (bountyData env bounty),
                         bountyTypeCounts := (bountyTypeCounts st)(bounty := bountyTypeCounts st bounty + 1)\<rparr>
                 else st)
      in case firstSellOf bounty (steps st1) of
           None \<Rightarrow> st1
         | Some completedStepIdx \<Rightarrow>
             st1\<lparr>stepIdx := stepIdx st1 + completedStepIdx + 1,
                  steps := drop (completedStepIdx + 1) (steps st1),
                  displaySteps := drop (completedStepIdx + 1) (steps st1)\<rparr>)"

text \<open>
  The block run when all bounties are found completed: the run's time is added to the
  session, an entry is appended to the session log (its text is not modelled), and the
  cached solution is cleared.
\<close>

definition finishRun :: "OCRProcessor \<Rightarrow> int \<Rightarrow> OCRProcessor" where
  "finishRun st now =
     (let st1 = (if 0 < runStartTime st
                 then st\<lparr>actualRunTimeSeconds := of_int (now - runStartTime st) / 1000,
                         totalDurationSeconds := totalDurationSeconds st
                                                 + of_int (now - runStartTime st) / 1000\<rparr>
                 else st)
      in st1\<lparr>sessionLogEntries := sessionLogEntries st1 + 1,
              prevOptimalBounties := [], o_kp := 0, distanceSeconds := None, steps := [],
              runBounties := [], runEstimatedTime := Some 0\<rparr>)"

definition inGrace :: "OCRProcessor \<Rightarrow> int \<Rightarrow> nat \<Rightarrow> bool" where
  "inGrace st now idx =
     (case recentActiveAdds st idx of
        None \<Rightarrow> False
      | Some expiresAt \<Rightarrow> expiresAt \<noteq> 0 \<and> now < expiresAt)"

definition firstOccurrences :: "string list \<Rightarrow> string list" where
  "firstOccurrences xs = rev (remdups (rev xs))"

definition computeActiveDrops :: "OCRProcessor \<Rightarrow> string list \<Rightarrow> slots \<Rightarrow> int \<Rightarrow> nat list" where
  "computeActiveDrops st optimalBounties detectedActive now =
     (let pumpkins = map fst (filter (\<lambda>(idx, bounty). bounty = ''PUMPKIN'' \<and> \<not> inGrace st now idx)
                                 detectedActive);
          others = firstOccurrences (filter (\<lambda>bounty. bounty \<noteq> ''PUMPKIN'') (map snd detectedActive));
          extrasOf = (\<lambda>bounty.
             let indices = sort (map fst (filter (\<lambda>(idx, b). b = bounty) detectedActive));
                 allowed = length (filter (\<lambda>b. b = bounty) optimalBounties)
             in if allowed < length indices
                then filter (\<lambda>idx. \<not> inGrace st now idx) (take (length indices - allowed) indices)
                else [])
      in pumpkins @ concat (map extrasOf others))"

fun computeBoardPickups :: "string list \<Rightarrow> slots \<Rightarrow> slots \<Rightarrow> string list \<Rightarrow> nat list" where
  "computeBoardPickups optimalBounties detectedActive [] picked = []"
| "computeBoardPickups optimalBounties detectedActive ((idx, bounty) # rest) picked =
     (if bounty \<noteq> ''PUMPKIN'' \<and> bounty \<in> set optimalBounties \<and>
         count_list (map snd detectedActive) bounty + count_list picked bounty
           < count_list optimalBounties bounty
      then idx # computeBoardPickups optimalBounties detectedActive rest (bounty # picked)
      else computeBoardPickups optimalBounties detectedActive rest picked)"

text \<open>
  \<^verbatim>\<open>processOCRResultsAsync\<close>, from the two slot objects on, in the order of the source:
  the grace windows, the run timer and the trigger (\<open>afterTrigger\<close>); the early return
  when no solution is cached; the completion of a bounty and of the run
  (\<open>afterCompletion\<close>); the drop and accept signals.
\<close>

definition afterTrigger :: "OCRProcessor \<Rightarrow> slots \<Rightarrow> slots \<Rightarrow> bool \<Rightarrow> int \<Rightarrow> OCRProcessor" where
  "afterTrigger st detectedActive detectedBoard boardOpen now =
     triggerRecompute (startRunTimer (trackActiveAdds st detectedActive now) boardOpen now)
       detectedActive detectedBoard boardOpen now"

definition afterCompletion :: "Env \<Rightarrow> OCRProcessor \<Rightarrow> slots \<Rightarrow> bool \<Rightarrow> int \<Rightarrow> OCRProcessor" where
  "afterCompletion env st3 detectedActive boardOpen now =
     (let completed = completedBounty (prevActiveBounties st3) detectedActive;
          st4 = (case completed of
                   Some bounty \<Rightarrow> if bounty \<noteq> [] then pruneCompleted env st3 boardOpen bounty else st3
                 | None \<Rightarrow> st3)
      in if length detectedActive = 0 \<and> 0 < length (prevActiveBounties st3) \<and>
            (case completed of Some bounty \<Rightarrow> bounty \<noteq> [] | None \<Rightarrow> False)
         then finishRun st4 now else st4)"

definition processOCRResults :: "Env \<Rightarrow> OCRProcessor \<Rightarrow> slots \<Rightarrow> slots \<Rightarrow> bool \<Rightarrow> int \<Rightarrow> OCRProcessor" where
  "processOCRResults env st detectedActive detectedBoard boardOpen now =
     (let st3 = afterTrigger st detectedActive detectedBoard boardOpen now
      in if prevOptimalBounties st3 = [] then
           st3\<lparr>activeDrops := [], boardPickups := [], activeBounties := detectedActive,
                boardBounties := detectedBoard, prevActiveBounties := detectedActive\<rparr>
         else
           let optimalBounties = prevOptimalBounties st3;
               st5 = afterCompletion env st3 detectedActive boardOpen now;
               drops = (if suppressDropsWhileRecompute st5 \<and> inFlightFind st5 \<noteq> None then []
                        else computeActiveDrops st5 optimalBounties detectedActive now);
               pickups = (if boardOpen
                          then computeBoardPickups optimalBounties detectedActive detectedBoard []
                          else [])
           in st5\<lparr>activeDrops := drops, boardPickups := pickups, activeBounties := detectedActive,
                   boardBounties := detectedBoard, prevActiveBounties := detectedActive\<rparr>)"

text \<open>A freshly constructed processor with the default options.\<close>

definition newProcessor :: OCRProcessor where
  "newProcessor =
     \<lparr>activeBounties = [], boardBounties = [], activeDrops = [], boardPickups = [], steps = [],
      o_kp = 0, distanceSeconds = None, displaySteps = [], displayKp = 0,
      displayDistanceSeconds = None, stepIdx = 0, prevActiveBounties = [],
      prevOptimalBounties = [], prevAllBountiesSignature = [], prevBoardOpenSignature = False,
      pathfinderWorkerTimeoutMs = 20000, inFlightFind = None, launchedAtLeastOnce = False,
      dropGraceMs = 2000, recentActiveAdds = (\<lambda>idx. None), suppressDropsWhileRecompute = True,
      runStartTime = 0, actualRunTimeSeconds = 0, runBounties = [], runEstimatedTime = Some 0,
      totalKpEarned = 0, totalDurationSeconds = 0, totalBountiesCompleted = 0,
      bountyTypeCounts = (\<lambda>bounty. 0), sessionLogEntries = 0\<rparr>"


subsection \<open>The acceptance rule\<close>

definition wfResult :: "Result \<Rightarrow> bool" where
  "wfResult r \<longleftrightarrow> res_bounties r \<noteq> [] \<and> 0 < res_kp r \<and> 0 < res_distance r"

definition cached :: "OCRProcessor \<Rightarrow> bool" where
  "cached st \<longleftrightarrow>
     prevOptimalBounties st \<noteq> [] \<and> 0 < o_kp st \<and>
     (case distanceSeconds st of Some d \<Rightarrow> 0 < d | None \<Rightarrow> False)"

definition cachedEfficiency :: "OCRProcessor \<Rightarrow> rat" where
  "cachedEfficiency st = o_kp st / the (distanceSeconds st)"

definition wfCompletion :: "string \<times> Result option \<Rightarrow> bool" where
  "wfCompletion c = (case snd c of None \<Rightarrow> True | Some r \<Rightarrow> wfResult r)"

definition completeAll :: "OCRProcessor \<Rightarrow> (string \<times> Result option) list \<Rightarrow> OCRProcessor" where
  "completeAll st cs = foldl (\<lambda>s c. completeFindBest s (fst c) (snd c)) st cs"

lemma cachedEfficiency_pos: "cached st \<Longrightarrow> 0 < cachedEfficiency st"
  by (auto simp: cached_def cachedEfficiency_def split: option.splits)

lemma acceptResult_better:
  assumes "cached st" "wfResult r" "cachedEfficiency st < efficiency r"
  shows "prevOptimalBounties (acceptResult st r) = res_bounties r"
    "o_kp (acceptResult st r) = res_kp r"
    "distanceSeconds (acceptResult st r) = Some (res_distance r)"
  using assms cachedEfficiency_pos[OF assms(1)]
  by (auto simp: acceptResult_def Let_def jsDivide_def wfResult_def cached_def
                 cachedEfficiency_def efficiency_def split: option.splits)

lemma acceptResult_not_better:
  assumes "cached st" "wfResult r" "\<not> cachedEfficiency st < efficiency r"
  shows "acceptResult st r = st"
  using assms cachedEfficiency_pos[OF assms(1)]
  by (auto simp: acceptResult_def Let_def jsDivide_def wfResult_def cached_def
                 cachedEfficiency_def efficiency_def split: option.splits)

lemma acceptResult_none_cached:
  assumes "prevOptimalBounties st = []"
  shows "prevOptimalBounties (acceptResult st r) = res_bounties r"
    "o_kp (acceptResult st r) = res_kp r"
    "distanceSeconds (acceptResult st r) = Some (res_distance r)"
  using assms by (auto simp: acceptResult_def Let_def)

lemma acceptResult_monotone:
  assumes "cached st" "wfResult r"
  shows "cached (acceptResult st r) \<and> cachedEfficiency st \<le> cachedEfficiency (acceptResult st r)"
proof (cases "cachedEfficiency st < efficiency r")
  case True
  from acceptResult_better[OF assms True] show ?thesis
    using assms(2) True by (simp add: cached_def cachedEfficiency_def wfResult_def efficiency_def)
next
  case False
  from acceptResult_not_better[OF assms False] show ?thesis using assms(1) by simp
qed

lemma completeFindBest_solution:
  "prevOptimalBounties (completeFindBest st sig outcome)
     = prevOptimalBounties (case outcome of None \<Rightarrow> st | Some r \<Rightarrow> acceptResult st r) \<and>
   o_kp (completeFindBest st sig outcome)
     = o_kp (case outcome of None \<Rightarrow> st | Some r \<Rightarrow> acceptResult st r) \<and>
   distanceSeconds (completeFindBest st sig outcome)
     = distanceSeconds (case outcome of None \<Rightarrow> st | Some r \<Rightarrow> acceptResult st r)"
  by (cases outcome) (simp_all add: completeFindBest_def Let_def)

lemma completeFindBest_monotone:
  assumes "cached st" "wfCompletion c"
  shows "cached (completeFindBest st (fst c) (snd c)) \<and>
         cachedEfficiency st \<le> cachedEfficiency (completeFindBest st (fst c) (snd c))"
proof (cases "snd c")
  case None
  then show ?thesis using assms(1) completeFindBest_solution[of st "fst c" None]
    by (simp add: cached_def cachedEfficiency_def)
next
  case (Some r)
  then have "wfResult r" using assms(2) by (simp add: wfCompletion_def)
  from acceptResult_monotone[OF assms(1) this] show ?thesis
    using Some completeFindBest_solution[of st "fst c" "Some r"]
    by (simp add: cached_def cachedEfficiency_def)
qed

lemma completeAll_monotone:
  assumes "cached st" "list_all wfCompletion cs"
  shows "cached (completeAll st cs) \<and> cachedEfficiency st \<le> cachedEfficiency (completeAll st cs)"
  using assms
proof (induction cs arbitrary: st)
  case Nil then show ?case by (simp add: completeAll_def)
next
  case (Cons c cs)
  have 1: "cached (completeFindBest st (fst c) (snd c))"
    "cachedEfficiency st \<le> cachedEfficiency (completeFindBest st (fst c) (snd c))"
    using completeFindBest_monotone[of st c] Cons.prems by simp_all
  have "cached (completeAll (completeFindBest st (fst c) (snd c)) cs) \<and>
        cachedEfficiency (completeFindBest st (fst c) (snd c))
          \<le> cachedEfficiency (completeAll (completeFindBest st (fst c) (snd c)) cs)"
    using Cons.prems 1(1) by (intro Cons.IH) simp_all
  then show ?case using 1(2) by (simp add: completeAll_def)
qed

text \<open>
  C3. With a solution cached (a non-empty subset with positive reward and time) and a
  computed result that is a solution of a non-empty subset, the result replaces the cached
  solution exactly when its efficiency is strictly greater; with no solution cached it
  always does. Hence over any sequence of completions, successful or failed, the cached
  solution stays cached and its efficiency never decreases.
\<close>

theorem acceptance_rule_monotone:
  assumes "cached st" and "wfResult r" and "list_all wfCompletion completions"
    and "prevOptimalBounties fresh = []"
  shows "(if cachedEfficiency st < efficiency r
          then prevOptimalBounties (acceptResult st r) = res_bounties r \<and>
               o_kp (acceptResult st r) = res_kp r \<and>
               distanceSeconds (acceptResult st r) = Some (res_distance r)
          else acceptResult st r = st) \<and>
         prevOptimalBounties (acceptResult fresh r) = res_bounties r \<and>
         o_kp (acceptResult fresh r) = res_kp r \<and>
         distanceSeconds (acceptResult fresh r) = Some (res_distance r) \<and>
         cached (completeAll st completions) \<and>
         cachedEfficiency st \<le> cachedEfficiency (completeAll st completions)"
  using acceptResult_better[OF assms(1,2)] acceptResult_not_better[OF assms(1,2)]
        acceptResult_none_cached[OF assms(4), of r] completeAll_monotone[OF assms(1,3)]
  by simp

subsection \<open>At most one computation in flight\<close>

lemma acceptResult_inFlight [simp]: "inFlightFind (acceptResult st r) = inFlightFind st"
  by (simp add: acceptResult_def Let_def)

text \<open>
  C9. The processor tracks the computation in flight in one field, so at most one is
  tracked. A trigger with the signature of the computation in flight changes nothing. A
  trigger with another signature replaces a computation older than the timeout plus 1000
  ms by the new one, and changes nothing while the computation is no older than that. With
  nothing in flight the trigger registers the new computation. A completion clears the
  field only when it belongs to the computation in flight.
\<close>

theorem launch_tracks_one_computation:
  "(inFlightFind st = Some f \<and> signature f = sig
      \<longrightarrow> launchFindBestIfNeeded st sig now = st) \<and>
   (inFlightFind st = Some f \<and> signature f \<noteq> sig \<and>
    pathfinderWorkerTimeoutMs st + 1000 < now - startedAtMs f
      \<longrightarrow> inFlightFind (launchFindBestIfNeeded st sig now)
            = Some \<lparr>signature = sig, startedAtMs = now\<rparr>) \<and>
   (inFlightFind st = Some f \<and> signature f \<noteq> sig \<and>
    now - startedAtMs f \<le> pathfinderWorkerTimeoutMs st + 1000
      \<longrightarrow> launchFindBestIfNeeded st sig now = st) \<and>
   (inFlightFind st = None
      \<longrightarrow> inFlightFind (launchFindBestIfNeeded st sig now)
            = Some \<lparr>signature = sig, startedAtMs = now\<rparr>) \<and>
   (inFlightFind st = Some f \<and> signature f = sig
      \<longrightarrow> inFlightFind (completeFindBest st sig outcome) = None) \<and>
   (inFlightFind st = Some f \<and> signature f \<noteq> sig
      \<longrightarrow> inFlightFind (completeFindBest st sig outcome) = Some f)"
  by (cases outcome) (auto simp: launchFindBestIfNeeded_def completeFindBest_def Let_def)


subsection \<open>What a snapshot does to the fields the signals depend on\<close>

lemma triggerRecompute_kept:
  "prevOptimalBounties (triggerRecompute st da db bo now) = prevOptimalBounties st"
  "suppressDropsWhileRecompute (triggerRecompute st da db bo now) = suppressDropsWhileRecompute st"
  "recentActiveAdds (triggerRecompute st da db bo now) = recentActiveAdds st"
  "prevActiveBounties (triggerRecompute st da db bo now) = prevActiveBounties st"
  "o_kp (triggerRecompute st da db bo now) = o_kp st"
  "distanceSeconds (triggerRecompute st da db bo now) = distanceSeconds st"
  "steps (triggerRecompute st da db bo now) = steps st"
  "runStartTime (triggerRecompute st da db bo now) = runStartTime st"
  "actualRunTimeSeconds (triggerRecompute st da db bo now) = actualRunTimeSeconds st"
  "totalDurationSeconds (triggerRecompute st da db bo now) = totalDurationSeconds st"
  "sessionLogEntries (triggerRecompute st da db bo now) = sessionLogEntries st"
  by (simp_all add: triggerRecompute_def launchFindBestIfNeeded_def Let_def split: option.splits)

lemma startRunTimer_kept:
  "prevOptimalBounties (startRunTimer st bo now) = prevOptimalBounties st"
  "suppressDropsWhileRecompute (startRunTimer st bo now) = suppressDropsWhileRecompute st"
  "recentActiveAdds (startRunTimer st bo now) = recentActiveAdds st"
  "prevActiveBounties (startRunTimer st bo now) = prevActiveBounties st"
  "o_kp (startRunTimer st bo now) = o_kp st"
  "distanceSeconds (startRunTimer st bo now) = distanceSeconds st"
  "steps (startRunTimer st bo now) = steps st"
  "totalDurationSeconds (startRunTimer st bo now) = totalDurationSeconds st"
  "sessionLogEntries (startRunTimer st bo now) = sessionLogEntries st"
  by (simp_all add: startRunTimer_def)

lemma trackActiveAdds_kept:
  "prevOptimalBounties (trackActiveAdds st da now) = prevOptimalBounties st"
  "suppressDropsWhileRecompute (trackActiveAdds st da now) = suppressDropsWhileRecompute st"
  "prevActiveBounties (trackActiveAdds st da now) = prevActiveBounties st"
  "prevBoardOpenSignature (trackActiveAdds st da now) = prevBoardOpenSignature st"
  "o_kp (trackActiveAdds st da now) = o_kp st"
  "distanceSeconds (trackActiveAdds st da now) = distanceSeconds st"
  "steps (trackActiveAdds st da now) = steps st"
  "runStartTime (trackActiveAdds st da now) = runStartTime st"
  "actualRunTimeSeconds (trackActiveAdds st da now) = actualRunTimeSeconds st"
  "totalDurationSeconds (trackActiveAdds st da now) = totalDurationSeconds st"
  "sessionLogEntries (trackActiveAdds st da now) = sessionLogEntries st"
  by (simp_all add: trackActiveAdds_def Let_def)

lemma pruneCompleted_kept:
  "suppressDropsWhileRecompute (pruneCompleted env st bo b) = suppressDropsWhileRecompute st"
  "recentActiveAdds (pruneCompleted env st bo b) = recentActiveAdds st"
  "inFlightFind (pruneCompleted env st bo b) = inFlightFind st"
  "prevOptimalBounties (pruneCompleted env st bo b) = prevOptimalBounties st"
  "runStartTime (pruneCompleted env st bo b) = runStartTime st"
  "actualRunTimeSeconds (pruneCompleted env st bo b) = actualRunTimeSeconds st"
  "totalDurationSeconds (pruneCompleted env st bo b) = totalDurationSeconds st"
  "sessionLogEntries (pruneCompleted env st bo b) = sessionLogEntries st"
  by (simp_all add: pruneCompleted_def Let_def split: option.splits)

lemma finishRun_kept:
  "suppressDropsWhileRecompute (finishRun st now) = suppressDropsWhileRecompute st"
  "recentActiveAdds (finishRun st now) = recentActiveAdds st"
  "inFlightFind (finishRun st now) = inFlightFind st"
  by (simp_all add: finishRun_def Let_def)

lemma finishRun_clears:
  "prevOptimalBounties (finishRun st now) = []"
  "o_kp (finishRun st now) = 0"
  "distanceSeconds (finishRun st now) = None"
  "steps (finishRun st now) = []"
  "runBounties (finishRun st now) = []"
  "runEstimatedTime (finishRun st now) = Some 0"
  "sessionLogEntries (finishRun st now) = sessionLogEntries st + 1"
  "actualRunTimeSeconds (finishRun st now)
     = (if 0 < runStartTime st then of_int (now - runStartTime st) / 1000
        else actualRunTimeSeconds st)"
  "totalDurationSeconds (finishRun st now)
     = (if 0 < runStartTime st
        then totalDurationSeconds st + of_int (now - runStartTime st) / 1000
        else totalDurationSeconds st)"
  by (simp_all add: finishRun_def Let_def)

lemma filtered_key:
  "(idx, b) \<in> set xs \<Longrightarrow> P idx b \<Longrightarrow> idx \<in> set (map fst (filter (\<lambda>(i, x). P i x) xs))"
  by (induction xs) auto

lemma computeActiveDrops_pumpkin:
  assumes "(idx, ''PUMPKIN'') \<in> set detectedActive" "\<not> inGrace st now idx"
  shows "idx \<in> set (computeActiveDrops st optimalBounties detectedActive now)"
proof -
  define P where "P = (\<lambda>i bounty. bounty = ''PUMPKIN'' \<and> \<not> inGrace st now i)"
  have "P idx ''PUMPKIN''" using assms(2) unfolding P_def by blast
  with assms(1) have "idx \<in> set (map fst (filter (\<lambda>(i, x). P i x) detectedActive))"
    by (rule filtered_key)
  then show ?thesis unfolding P_def computeActiveDrops_def Let_def
    by (simp only: set_append UnI1)
qed

lemma inGrace_cong:
  "recentActiveAdds st = recentActiveAdds st' \<Longrightarrow> inGrace st now idx = inGrace st' now idx"
  by (simp add: inGrace_def)

lemma afterTrigger_kept:
  "prevOptimalBounties (afterTrigger st da db bo now) = prevOptimalBounties st"
  "suppressDropsWhileRecompute (afterTrigger st da db bo now) = suppressDropsWhileRecompute st"
  "prevActiveBounties (afterTrigger st da db bo now) = prevActiveBounties st"
  "recentActiveAdds (afterTrigger st da db bo now) = recentActiveAdds (trackActiveAdds st da now)"
  by (simp_all add: afterTrigger_def triggerRecompute_kept startRunTimer_kept trackActiveAdds_kept)

lemma afterCompletion_kept:
  "suppressDropsWhileRecompute (afterCompletion env st da bo now) = suppressDropsWhileRecompute st"
  "recentActiveAdds (afterCompletion env st da bo now) = recentActiveAdds st"
  "inFlightFind (afterCompletion env st da bo now) = inFlightFind st"
  by (simp_all add: afterCompletion_def Let_def pruneCompleted_kept finishRun_kept split: option.splits)

lemma processOCRResults_fields:
  assumes "prevOptimalBounties st \<noteq> []"
  shows "activeDrops (processOCRResults env st da db bo now)
           = (if suppressDropsWhileRecompute st \<and> inFlightFind (afterTrigger st da db bo now) \<noteq> None
              then []
              else computeActiveDrops (afterCompletion env (afterTrigger st da db bo now) da bo now)
                     (prevOptimalBounties st) da now)"
    "inFlightFind (processOCRResults env st da db bo now) = inFlightFind (afterTrigger st da db bo now)"
    "recentActiveAdds (processOCRResults env st da db bo now) = recentActiveAdds (trackActiveAdds st da now)"
  using assms
  by (simp_all add: processOCRResults_def Let_def afterTrigger_kept afterCompletion_kept)

lemma processOCRResults_solution:
  assumes "prevOptimalBounties st \<noteq> []"
  shows "prevOptimalBounties (processOCRResults env st da db bo now)
           = prevOptimalBounties (afterCompletion env (afterTrigger st da db bo now) da bo now)"
    "o_kp (processOCRResults env st da db bo now)
           = o_kp (afterCompletion env (afterTrigger st da db bo now) da bo now)"
    "distanceSeconds (processOCRResults env st da db bo now)
           = distanceSeconds (afterCompletion env (afterTrigger st da db bo now) da bo now)"
    "steps (processOCRResults env st da db bo now)
           = steps (afterCompletion env (afterTrigger st da db bo now) da bo now)"
    "runBounties (processOCRResults env st da db bo now)
           = runBounties (afterCompletion env (afterTrigger st da db bo now) da bo now)"
    "runEstimatedTime (processOCRResults env st da db bo now)
           = runEstimatedTime (afterCompletion env (afterTrigger st da db bo now) da bo now)"
    "sessionLogEntries (processOCRResults env st da db bo now)
           = sessionLogEntries (afterCompletion env (afterTrigger st da db bo now) da bo now)"
    "actualRunTimeSeconds (processOCRResults env st da db bo now)
           = actualRunTimeSeconds (afterCompletion env (afterTrigger st da db bo now) da bo now)"
    "totalDurationSeconds (processOCRResults env st da db bo now)
           = totalDurationSeconds (afterCompletion env (afterTrigger st da db bo now) da bo now)"
  using assms
  by (simp_all add: processOCRResults_def Let_def afterTrigger_kept)

text \<open>
  C4 (amended). Whatever the cached solution's subset is, as long as one is cached: a held
  slot with a pumpkin whose grace window is over (it has no entry among the recent
  additions after the snapshot) is signalled "drop", unless the drop signals are suppressed
  because a computation is in flight after the snapshot.
\<close>

theorem pumpkin_dropped_when_cached:
  assumes "(idx, ''PUMPKIN'') \<in> set detectedActive"
    and "prevOptimalBounties st \<noteq> []"
    and "st' = processOCRResults env st detectedActive detectedBoard boardOpen now"
    and "\<not> (suppressDropsWhileRecompute st \<and> inFlightFind st' \<noteq> None)"
    and "recentActiveAdds st' idx = None"
  shows "idx \<in> set (activeDrops st')"
proof -
  let ?st5 = "afterCompletion env (afterTrigger st detectedActive detectedBoard boardOpen now)
                detectedActive boardOpen now"
  have r: "recentActiveAdds ?st5 = recentActiveAdds st'"
    using assms(2,3) by (simp add: processOCRResults_fields afterCompletion_kept afterTrigger_kept)
  have "\<not> inGrace ?st5 now idx" using assms(5) r by (simp add: inGrace_def)
  then have "idx \<in> set (computeActiveDrops ?st5 (prevOptimalBounties st) detectedActive now)"
    using assms(1) by (intro computeActiveDrops_pumpkin)
  then show ?thesis
    using assms(2,3,4) by (simp add: processOCRResults_fields)
qed

lemma afterCompletion_last_one:
  assumes "prevActiveBounties st = [(idx, bounty)]" "bounty \<noteq> []"
  shows "afterCompletion env st [] bo now = finishRun (pruneCompleted env st bo bounty) now"
  using assms by (simp add: afterCompletion_def completedBounty_def Let_def)

text \<open>
  C8 (amended). With a solution cached, a snapshot in which the one remaining held slot is
  gone clears the cached solution (subset emptied, reward reset to 0, time reset to
  \<^verbatim>\<open>NaN\<close>, steps emptied) and finalizes the run: an entry is added to the session log, and
  when the run was timed its time is recorded and added to the session's total.
\<close>

theorem last_completion_clears:
  assumes "prevOptimalBounties st \<noteq> []"
    and "prevActiveBounties st = [(idx, bounty)]" and "bounty \<noteq> []"
    and "st' = processOCRResults env st [] detectedBoard boardOpen now"
    and "timed = startRunTimer st boardOpen now"
  shows "prevOptimalBounties st' = [] \<and> o_kp st' = 0 \<and> distanceSeconds st' = None \<and>
         steps st' = [] \<and> runBounties st' = [] \<and> runEstimatedTime st' = Some 0 \<and>
         sessionLogEntries st' = sessionLogEntries st + 1 \<and>
         (if 0 < runStartTime timed
          then actualRunTimeSeconds st' = of_int (now - runStartTime timed) / 1000 \<and>
               totalDurationSeconds st'
                 = totalDurationSeconds st + of_int (now - runStartTime timed) / 1000
          else actualRunTimeSeconds st' = actualRunTimeSeconds timed \<and>
               totalDurationSeconds st' = totalDurationSeconds st)"
proof -
  let ?st3 = "afterTrigger st [] detectedBoard boardOpen now"
  let ?st4 = "pruneCompleted env ?st3 boardOpen bounty"
  have p: "prevActiveBounties ?st3 = [(idx, bounty)]"
    using assms(2) by (simp add: afterTrigger_kept)
  have c: "afterCompletion env ?st3 [] boardOpen now = finishRun ?st4 now"
    using p assms(3) by (rule afterCompletion_last_one)
  have t: "runStartTime ?st4 = runStartTime timed" "actualRunTimeSeconds ?st4 = actualRunTimeSeconds timed"
    "totalDurationSeconds ?st4 = totalDurationSeconds st" "sessionLogEntries ?st4 = sessionLogEntries st"
    using assms(5)
    by (simp_all add: afterTrigger_def pruneCompleted_kept triggerRecompute_kept startRunTimer_kept
                      trackActiveAdds_kept startRunTimer_def)
  show ?thesis
    unfolding assms(4) processOCRResults_solution[OF assms(1)] c
    by (simp add: finishRun_clears t)
qed


subsection \<open>Scenarios\<close>

text \<open>
  A session in the line world. The processor is new; the first snapshot comes at 1000 ms
  with the board closed, and its computation completes with the given outcome; a second
  snapshot follows at a later time.
\<close>

definition lineResult :: Result where
  "lineResult = \<lparr>res_bounties = [''CARROTS'', ''TOMATOES''], res_actions = r_actions lineRoute,
                  res_distance = 61, res_kp = 17\<rparr>"

definition carrotsResult :: Result where
  "carrotsResult =
     \<lparr>res_bounties = [''CARROTS''],
      res_actions = [Buy ''CARROTS'' ''Greengrocers'' 13, Sell ''CARROTS'' ''Toy Stall'' 22,
                     Return ''Bounty Board'' 27],
      res_distance = 27, res_kp = 9\<rparr>"

definition afterFirst :: "slots \<Rightarrow> string \<Rightarrow> Result option \<Rightarrow> OCRProcessor" where
  "afterFirst held sig outcome =
     completeFindBest (processOCRResults lineWorld newProcessor held [] False 1000) sig outcome"

definition afterSecond :: "slots \<Rightarrow> string \<Rightarrow> Result option \<Rightarrow> slots \<Rightarrow> int \<Rightarrow> OCRProcessor" where
  "afterSecond held sig outcome held' now =
     processOCRResults lineWorld (afterFirst held sig outcome) held' [] False now"

text \<open>The same, but the second snapshot finds the board open, with the given offers.\<close>

definition afterSecondAtBoard :: "slots \<Rightarrow> string \<Rightarrow> Result option \<Rightarrow> slots \<Rightarrow> slots \<Rightarrow> int
    \<Rightarrow> OCRProcessor" where
  "afterSecondAtBoard held sig outcome held' offered now =
     processOCRResults lineWorld (afterFirst held sig outcome) held' offered True now"

definition threeHeld :: slots where
  "threeHeld = [(0, ''CARROTS''), (1, ''TOMATOES''), (2, ''PUMPKIN'')]"

text \<open>
  C4 (as stated) fails in two situations, both outside the grace window. First, with no
  solution cached: a pumpkin is held from the first snapshot on and the computation for
  the empty set of relevant bounties fails, so nothing is cached; at 5000 ms the pumpkin's
  grace window (until 3000 ms) is over and no computation is in flight, yet the slot is not
  signalled, because without a cached solution the snapshot processing returns early with
  no drop signal at all. Second, with a solution cached and a computation in flight:
  carrots, tomatoes and a pumpkin are held and the solution for carrots and tomatoes is
  cached; at 5000 ms the board is found open, which starts a computation, and while it is
  in flight every drop signal is suppressed, the pumpkin's included.
\<close>

theorem pumpkin_not_dropped_counterexample:
  "activeBounties (afterSecond [(0, ''PUMPKIN'')] [] None [(0, ''PUMPKIN'')] 5000)
     = [(0, ''PUMPKIN'')] \<and>
   prevOptimalBounties (afterSecond [(0, ''PUMPKIN'')] [] None [(0, ''PUMPKIN'')] 5000) = [] \<and>
   recentActiveAdds (afterSecond [(0, ''PUMPKIN'')] [] None [(0, ''PUMPKIN'')] 5000) 0 = None \<and>
   inFlightFind (afterSecond [(0, ''PUMPKIN'')] [] None [(0, ''PUMPKIN'')] 5000) = None \<and>
   activeDrops (afterSecond [(0, ''PUMPKIN'')] [] None [(0, ''PUMPKIN'')] 5000) = [] \<and>
   activeBounties (afterSecondAtBoard threeHeld ''CARROTS|TOMATOES'' (Some lineResult) threeHeld [] 5000)
     = [(0, ''CARROTS''), (1, ''TOMATOES''), (2, ''PUMPKIN'')] \<and>
   prevOptimalBounties (afterSecondAtBoard threeHeld ''CARROTS|TOMATOES'' (Some lineResult) threeHeld [] 5000)
     = [''CARROTS'', ''TOMATOES''] \<and>
   recentActiveAdds (afterSecondAtBoard threeHeld ''CARROTS|TOMATOES'' (Some lineResult) threeHeld [] 5000) 2
     = None \<and>
   inFlightFind (afterSecondAtBoard threeHeld ''CARROTS|TOMATOES'' (Some lineResult) threeHeld [] 5000)
     = Some \<lparr>signature = ''CARROTS|TOMATOES'', startedAtMs = 5000\<rparr> \<and>
   activeDrops (afterSecondAtBoard threeHeld ''CARROTS|TOMATOES'' (Some lineResult) threeHeld [] 5000) = []"
  by code_simp

lemma threeHeld_facts:
  "(2, ''PUMPKIN'') \<in> set threeHeld"
  "prevOptimalBounties (afterFirst threeHeld ''CARROTS|TOMATOES'' (Some lineResult)) \<noteq> []"
  "\<not> (suppressDropsWhileRecompute (afterFirst threeHeld ''CARROTS|TOMATOES'' (Some lineResult)) \<and>
      inFlightFind (afterSecond threeHeld ''CARROTS|TOMATOES'' (Some lineResult) threeHeld 5000) \<noteq> None)"
  "recentActiveAdds (afterSecond threeHeld ''CARROTS|TOMATOES'' (Some lineResult) threeHeld 5000) 2 = None"
  by code_simp+

theorem pumpkin_dropped_when_cached_witness:
  "(2, ''PUMPKIN'') \<in> set threeHeld \<and>
   prevOptimalBounties (afterFirst threeHeld ''CARROTS|TOMATOES'' (Some lineResult)) \<noteq> [] \<and>
   recentActiveAdds (afterSecond threeHeld ''CARROTS|TOMATOES'' (Some lineResult) threeHeld 5000) 2 = None \<and>
   2 \<in> set (activeDrops (afterSecond threeHeld ''CARROTS|TOMATOES'' (Some lineResult) threeHeld 5000))"
  using pumpkin_dropped_when_cached[OF threeHeld_facts(1,2) _ threeHeld_facts(3,4),
          of lineWorld "[]" False]
        threeHeld_facts
  by (simp add: afterSecond_def)

text \<open>
  C8 (as stated) fails when two held slots disappear in one snapshot. Carrots and tomatoes
  are held and their solution is cached; at 60000 ms no slot is held any more. The held
  count went from 2 to 0, but the completed bounty is looked for only when the count drops
  by exactly one, so the run is not finished: the solution stays cached and nothing is
  logged. It also fails when nothing is cached: carrots are held, the computation fails,
  and at 60000 ms the slot is empty; the processing returns before the completion is
  looked at, and nothing is logged.
\<close>

theorem full_completion_counterexample:
  "length (prevActiveBounties
             (afterFirst [(0, ''CARROTS''), (1, ''TOMATOES'')] ''CARROTS|TOMATOES'' (Some lineResult))) = 2 \<and>
   activeBounties (afterSecond [(0, ''CARROTS''), (1, ''TOMATOES'')] ''CARROTS|TOMATOES''
                     (Some lineResult) [] 60000) = [] \<and>
   prevOptimalBounties (afterSecond [(0, ''CARROTS''), (1, ''TOMATOES'')] ''CARROTS|TOMATOES''
                          (Some lineResult) [] 60000) = [''CARROTS'', ''TOMATOES''] \<and>
   o_kp (afterSecond [(0, ''CARROTS''), (1, ''TOMATOES'')] ''CARROTS|TOMATOES''
           (Some lineResult) [] 60000) = 17 \<and>
   distanceSeconds (afterSecond [(0, ''CARROTS''), (1, ''TOMATOES'')] ''CARROTS|TOMATOES''
                      (Some lineResult) [] 60000) = Some 61 \<and>
   sessionLogEntries (afterSecond [(0, ''CARROTS''), (1, ''TOMATOES'')] ''CARROTS|TOMATOES''
                        (Some lineResult) [] 60000) = 0 \<and>
   prevActiveBounties (afterFirst [(0, ''CARROTS'')] ''CARROTS'' None) = [(0, ''CARROTS'')] \<and>
   activeBounties (afterSecond [(0, ''CARROTS'')] ''CARROTS'' None [] 60000) = [] \<and>
   sessionLogEntries (afterSecond [(0, ''CARROTS'')] ''CARROTS'' None [] 60000) = 0"
  by code_simp

lemma oneHeld_facts:
  "prevOptimalBounties (afterFirst [(0, ''CARROTS'')] ''CARROTS'' (Some carrotsResult)) \<noteq> []"
  "prevActiveBounties (afterFirst [(0, ''CARROTS'')] ''CARROTS'' (Some carrotsResult)) = [(0, ''CARROTS'')]"
  "''CARROTS'' \<noteq> []"
  "sessionLogEntries (afterFirst [(0, ''CARROTS'')] ''CARROTS'' (Some carrotsResult)) = 0"
  by code_simp+

theorem last_completion_clears_witness:
  "prevOptimalBounties (afterFirst [(0, ''CARROTS'')] ''CARROTS'' (Some carrotsResult)) \<noteq> [] \<and>
   prevActiveBounties (afterFirst [(0, ''CARROTS'')] ''CARROTS'' (Some carrotsResult)) = [(0, ''CARROTS'')] \<and>
   prevOptimalBounties (afterSecond [(0, ''CARROTS'')] ''CARROTS'' (Some carrotsResult) [] 60000) = [] \<and>
   o_kp (afterSecond [(0, ''CARROTS'')] ''CARROTS'' (Some carrotsResult) [] 60000) = 0 \<and>
   distanceSeconds (afterSecond [(0, ''CARROTS'')] ''CARROTS'' (Some carrotsResult) [] 60000) = None \<and>
   steps (afterSecond [(0, ''CARROTS'')] ''CARROTS'' (Some carrotsResult) [] 60000) = [] \<and>
   sessionLogEntries (afterSecond [(0, ''CARROTS'')] ''CARROTS'' (Some carrotsResult) [] 60000) = 1"
  using last_completion_clears[OF oneHeld_facts(1,2,3) refl refl, of lineWorld "[]" False 60000]
        oneHeld_facts
  by (simp add: afterSecond_def)

definition betterResult :: Result where
  "betterResult = \<lparr>res_bounties = [''CARROTS'', ''TOMATOES''], res_actions = [],
                    res_distance = 51, res_kp = 17\<rparr>"

lemma acceptance_facts:
  "cached (afterFirst [(0, ''CARROTS''), (1, ''TOMATOES'')] ''CARROTS|TOMATOES'' (Some lineResult))"
  "wfResult betterResult"
  "list_all wfCompletion [(''CARROTS|TOMATOES'', Some betterResult), (''SOAP'', None),
                          (''CARROTS|TOMATOES'', Some lineResult)]"
  "prevOptimalBounties newProcessor = []"
  "cachedEfficiency (afterFirst [(0, ''CARROTS''), (1, ''TOMATOES'')] ''CARROTS|TOMATOES'' (Some lineResult))
     < efficiency betterResult"
  by code_simp+

theorem acceptance_rule_monotone_witness:
  "cached (afterFirst [(0, ''CARROTS''), (1, ''TOMATOES'')] ''CARROTS|TOMATOES'' (Some lineResult)) \<and>
   wfResult betterResult \<and>
   o_kp (acceptResult (afterFirst [(0, ''CARROTS''), (1, ''TOMATOES'')] ''CARROTS|TOMATOES'' (Some lineResult))
           betterResult) = res_kp betterResult \<and>
   distanceSeconds (acceptResult newProcessor betterResult) = Some (res_distance betterResult) \<and>
   cachedEfficiency (afterFirst [(0, ''CARROTS''), (1, ''TOMATOES'')] ''CARROTS|TOMATOES'' (Some lineResult))
     \<le> cachedEfficiency
          (completeAll (afterFirst [(0, ''CARROTS''), (1, ''TOMATOES'')] ''CARROTS|TOMATOES'' (Some lineResult))
             [(''CARROTS|TOMATOES'', Some betterResult), (''SOAP'', None),
              (''CARROTS|TOMATOES'', Some lineResult)])"
  using acceptance_rule_monotone[OF acceptance_facts(1,2,3,4)] acceptance_facts
  by simp

definition waiting :: OCRProcessor where
  "waiting = newProcessor\<lparr>inFlightFind := Some \<lparr>signature = ''CARROTS'', startedAtMs = 0\<rparr>\<rparr>"

lemma waiting_facts:
  "inFlightFind waiting = Some \<lparr>signature = ''CARROTS'', startedAtMs = 0\<rparr>"
  "pathfinderWorkerTimeoutMs waiting = 20000"
  "inFlightFind newProcessor = None"
  "''CARROTS'' \<noteq> ''SOAP''"
  by code_simp+

theorem launch_tracks_one_computation_witness:
  "launchFindBestIfNeeded waiting ''CARROTS'' 30000 = waiting \<and>
   inFlightFind (launchFindBestIfNeeded waiting ''SOAP'' 21001)
     = Some \<lparr>signature = ''SOAP'', startedAtMs = 21001\<rparr> \<and>
   launchFindBestIfNeeded waiting ''SOAP'' 21000 = waiting \<and>
   inFlightFind (launchFindBestIfNeeded newProcessor ''SOAP'' 5)
     = Some \<lparr>signature = ''SOAP'', startedAtMs = 5\<rparr> \<and>
   inFlightFind (completeFindBest waiting ''CARROTS'' None) = None \<and>
   inFlightFind (completeFindBest waiting ''SOAP'' None)
     = Some \<lparr>signature = ''CARROTS'', startedAtMs = 0\<rparr>"
  using launch_tracks_one_computation[of waiting "\<lparr>signature = ''CARROTS'', startedAtMs = 0\<rparr>"
          "''CARROTS''" 30000 None]
        launch_tracks_one_computation[of waiting "\<lparr>signature = ''CARROTS'', startedAtMs = 0\<rparr>"
          "''SOAP''" 21001 None]
        launch_tracks_one_computation[of waiting "\<lparr>signature = ''CARROTS'', startedAtMs = 0\<rparr>"
          "''SOAP''" 21000 None]
        launch_tracks_one_computation[of newProcessor _ "''SOAP''" 5 None]
        waiting_facts
  by simp

end
